theory Spec2Isabelle
  imports Main
begin

section \<open>Values of the extraction engine\<close>

text \<open>
  The values the walker produces (\<open>jsval\<close>) and the values a selector schema is made of
  (\<open>sel\<close>). A schema object carries its constructor: \<open>CObject\<close> for an object literal,
  \<open>CUndefined\<close> for an object without prototype, \<open>CClass n\<close> for an instance of class
  \<open>n\<close> (a custom-type marker). The property list of an object is in the order of
  \<open>Object.keys\<close>. Functions and regular expressions are opaque: they are named by a
  number and interpreted by the environment.
\<close>

datatype jsval =
    JUndefined | JNull | JBool bool | JNum int | JStr string
  | JArr "jsval list" | JObj "(string \<times> jsval) list"

datatype ctor = CObject | CUndefined | CClass string

datatype sel =
    SUndefined | SNull | SBool bool | SNum int | SStr string
  | SFun nat | SRegExp nat
  | SArr "sel list" | SObj ctor "(string \<times> sel) list"

datatype failure = FetchError string | TypeError string | HandlerError string

datatype dom = Parsed string | Absolutes jsval dom

type_synonym outcome = "failure + jsval"

text \<open>\<open>typeof\<close>, \<open>instanceof RegExp\<close>, \<open>Array.isArray\<close> and the \<open>constructor\<close> property
  (reading it on \<open>null\<close> or \<open>undefined\<close> throws: \<open>None\<close>).\<close>

fun typeof :: "sel \<Rightarrow> string" where
  "typeof SUndefined = ''undefined''"
| "typeof SNull = ''object''"
| "typeof (SBool b) = ''boolean''"
| "typeof (SNum n) = ''number''"
| "typeof (SStr s) = ''string''"
| "typeof (SFun f) = ''function''"
| "typeof (SRegExp r) = ''object''"
| "typeof (SArr vs) = ''object''"
| "typeof (SObj c ps) = ''object''"

fun instanceofRegExp :: "sel \<Rightarrow> bool" where
  "instanceofRegExp (SRegExp r) = True"
| "instanceofRegExp v = False"

fun isArray :: "sel \<Rightarrow> bool" where
  "isArray (SArr vs) = True"
| "isArray v = False"

fun constructor_of :: "sel \<Rightarrow> ctor option" where
  "constructor_of SUndefined = None"
| "constructor_of SNull = None"
| "constructor_of (SBool b) = Some (CClass ''Boolean'')"
| "constructor_of (SNum n) = Some (CClass ''Number'')"
| "constructor_of (SStr s) = Some (CClass ''String'')"
| "constructor_of (SFun f) = Some (CClass ''Function'')"
| "constructor_of (SRegExp r) = Some (CClass ''RegExp'')"
| "constructor_of (SArr vs) = Some (CClass ''Array'')"
| "constructor_of (SObj c ps) = Some c"

text \<open>Modelled from the spec: \<open>lib/util.js\<close> (\<open>isObject\<close>, \<open>isArray\<close>) is not among the
  sources. \<open>isObject\<close> is taken to hold of the non-null values of type \<open>object\<close> that are
  not arrays; the test of \<open>walk\<close> below gives the same answer when arrays count as objects,
  since the constructor of an array is \<open>Array\<close>.\<close>

definition isObject :: "sel \<Rightarrow> bool" where
  "isObject val = (val \<noteq> SNull \<and> typeof val = ''object'' \<and> \<not> isArray val)"

section \<open>The recursive walker (lib/walk.js)\<close>

text \<open>
  \<open>walk(value, fn, done, key)\<close>: a plain object is walked property by property, every
  other value is handed to the callback \<open>fn\<close> with its key. A callback that reports an
  error is \<open>Inl\<close>; the batch of a plain object ends with the first error. A child's
  value is stored under its key unless it is \<open>undefined\<close> or the empty string.

  The source starts the children in the order of the keys and stores each value, or
  reports the error, when the child completes. \<open>walk_keys\<close> takes the children to complete
  in the order of the keys, as they do when every leaf answers at once. With leaves that
  answer later, the order of the keys in the result and, among several failing children,
  the error reported follow the order of completion, which \<open>walk_keys\<close> does not
  represent; whether the walk succeeds and the value stored under each key are the same
  for every order (\<open>walk_keys_any_order\<close> below).
\<close>

definition isPlainObject :: "sel \<Rightarrow> bool" where
  "isPlainObject value =
     (isObject value \<and> \<not> instanceofRegExp value \<and> typeof value \<noteq> ''function'' \<and>
      (constructor_of value = Some CObject \<or> constructor_of value = Some CUndefined))"

text \<open>\<open>out[k] = value\<close> on the object \<open>out\<close>: a new key goes last.\<close>

fun set_prop :: "(string \<times> jsval) list \<Rightarrow> string \<Rightarrow> jsval \<Rightarrow> (string \<times> jsval) list" where
  "set_prop [] k v = [(k, v)]"
| "set_prop ((k', v') # out) k v =
     (if k' = k then (k, v) # out else (k', v') # set_prop out k v)"

fun walk :: "(sel \<Rightarrow> string option \<Rightarrow> outcome) \<Rightarrow> sel \<Rightarrow> string option \<Rightarrow> outcome"
and walk_keys :: "(sel \<Rightarrow> string option \<Rightarrow> outcome) \<Rightarrow> (string \<times> sel) list \<Rightarrow>
      (string \<times> jsval) list \<Rightarrow> failure + (string \<times> jsval) list"
where
  "walk fn value key =
     (if isPlainObject value
      then (case value of
              SObj c ps \<Rightarrow> (case walk_keys fn ps [] of Inl err \<Rightarrow> Inl err | Inr out \<Rightarrow> Inr (JObj out))
            | _ \<Rightarrow> Inr (JObj []))
      else fn value key)"
| "walk_keys fn [] out = Inr out"
| "walk_keys fn ((k, v) # rest) out =
     (case walk fn v (Some k) of
        Inl err \<Rightarrow> Inl err
      | Inr value \<Rightarrow>
          walk_keys fn rest
            (if value \<noteq> JUndefined \<and> value \<noteq> JStr [] then set_prop out k value else out))"

declare walk.simps [simp del]

section \<open>Collaborators\<close>

text \<open>
  The document model, the selector resolver, the crawler and the registered filters are
  not among the sources; they are fields of the environment \<open>env\<close>. The walker also takes
  the two entry points of the schema validator it calls from the environment; the site
  below fills them with the validator of \<open>lib/validate-types.js\<close>.
  \<^item> \<open>isUrl\<close>, \<open>root\<close> and the predicate of \<open>compact\<close> (\<open>lib/util.js\<close>),
  \<^item> \<open>resolve\<close> (\<open>lib/resolve.js\<close>, with the filters fixed at construction),
  \<^item> \<open>crawl\<close>: the crawler, giving the body of the response or an error,
  \<^item> \<open>query\<close>: the elements \<open>$.find(scope)\<close> or \<open>$(scope)\<close> selects, in document order,
  \<^item> \<open>text_of\<close>: the text of a document or selection,
  \<^item> \<open>re_match\<close>: \<open>text.match(v)\<close> as \<open>(match[0], match[1])\<close>, \<open>None\<close> for no match,
  \<^item> \<open>call_fun\<close>: what a function selector passes to its callback,
  \<^item> \<open>customTypes\<close>: the registered custom types, in registration order,
  \<^item> \<open>assertValidType\<close>: the error \<open>validateTypes.assertValidType(selector, 'selector',
    {customTypes})\<close> throws, if any; \<open>validateType\<close>: the error message of
    \<open>validateTypes.validateType(v, k, {customTypes})\<close> when the result is not valid.
  A document is the parse of a string, possibly rewritten by \<open>absolutes(url, $)\<close>.
\<close>

datatype source = SourceNull | SourceStr string | SourceDoc dom

record custom_type =
  type_name :: string
  handler :: "sel \<Rightarrow> dom \<Rightarrow> string option \<Rightarrow> outcome"
  validator :: "(sel \<Rightarrow> bool) option"

record env =
  isUrl :: "jsval \<Rightarrow> bool"
  root :: "string option \<Rightarrow> jsval"
  resolve :: "source \<Rightarrow> jsval \<Rightarrow> sel \<Rightarrow> jsval"
  compact_keep :: "jsval \<Rightarrow> bool"
  crawl :: "jsval \<Rightarrow> failure + string"
  query :: "dom \<Rightarrow> string option \<Rightarrow> dom list"
  text_of :: "dom \<Rightarrow> string"
  re_match :: "nat \<Rightarrow> string \<Rightarrow> (string \<times> string option) option"
  call_fun :: "nat \<Rightarrow> dom \<Rightarrow> outcome"
  customTypes :: "custom_type list"
  assertValidType :: "sel \<Rightarrow> failure option"
  validateType :: "sel \<Rightarrow> string option \<Rightarrow> string option"

fun truthy :: "jsval \<Rightarrow> bool" where
  "truthy JUndefined = False"
| "truthy JNull = False"
| "truthy (JBool b) = b"
| "truthy (JNum n) = (n \<noteq> 0)"
| "truthy (JStr s) = (s \<noteq> [])"
| "truthy (JArr xs) = True"
| "truthy (JObj ps) = True"

fun cheerio_load :: "source \<Rightarrow> dom" where
  "cheerio_load (SourceDoc d) = d"
| "cheerio_load (SourceStr s) = Parsed s"
| "cheerio_load SourceNull = Parsed []"

definition load :: "source \<Rightarrow> jsval \<Rightarrow> dom" where
  "load html url =
     (let d = cheerio_load html
      in if truthy url then Absolutes url d else d)"

fun source_truthy :: "source \<Rightarrow> bool" where
  "source_truthy SourceNull = False"
| "source_truthy (SourceStr s) = (s \<noteq> [])"
| "source_truthy (SourceDoc d) = True"

fun source_isUrl :: "env \<Rightarrow> source \<Rightarrow> bool" where
  "source_isUrl E (SourceStr s) = isUrl E (JStr s)"
| "source_isUrl E src = False"

section \<open>Starting a node\<close>

text \<open>
  What reaches the callback \<open>next\<close> of a node: \<open>next(err)\<close> is \<open>Inl err\<close>, and
  \<open>next(null, obj, $)\<close> is \<open>Inr (obj, $)\<close>. The events of a run are the requests made of
  the crawler, the calls of the stream helper \<open>stream(obj, end)\<close>, the calls of the abort
  predicate with their two arguments, and the calls of the result callback \<open>fn\<close>.

  \<open>request(url, cb)\<close> fetches and, on success, loads the body and walks it.
  \<open>node_start\<close> is the dispatch of \<open>node\<close> on its source: a URL is fetched; with a scope
  of the form \<open>selector@attribute\<close> the scope is resolved against the source and the result
  is fetched if it is a URL, else the empty document is walked; any other truthy source is
  loaded and walked; a falsy source has the empty document walked. The second component
  is the signal \<open>next\<close> receives, the first the requests made before it.
\<close>

type_synonym signal = "failure + jsval \<times> dom"

datatype event = Request jsval | Stream jsval bool | AbortCall jsval jsval | Report outcome

definition request :: "env \<Rightarrow> jsval \<Rightarrow> (dom \<Rightarrow> signal) \<Rightarrow> signal" where
  "request E url walkHTML =
     (case crawl E url of
        Inl err \<Rightarrow> Inl err
      | Inr html \<Rightarrow> walkHTML (load (SourceStr html) url))"

fun source_url :: "source \<Rightarrow> jsval" where
  "source_url (SourceStr s) = JStr s"
| "source_url src = JUndefined"

definition composed :: "string option \<Rightarrow> bool" where
  "composed scope = (case scope of None \<Rightarrow> False | Some s \<Rightarrow> s \<noteq> [] \<and> CHR ''@'' \<in> set s)"

fun scope_sel :: "string option \<Rightarrow> sel" where
  "scope_sel None = SNull"
| "scope_sel (Some s) = SStr s"

definition node_start :: "env \<Rightarrow> string option \<Rightarrow> (dom \<Rightarrow> signal) \<Rightarrow> source \<Rightarrow> event list \<times> signal" where
  "node_start E scope walkHTML source =
     (if source_isUrl E source
      then ([Request (source_url source)], request E (source_url source) walkHTML)
      else if composed scope
      then (let url = resolve E source (JBool False) (scope_sel scope)
            in if \<not> isUrl E url
               then ([], walkHTML (load (SourceStr []) JUndefined))
               else ([Request url], request E url walkHTML))
      else if source_truthy source
      then ([], walkHTML (load source JUndefined))
      else ([], walkHTML (load (SourceStr []) JUndefined)))"

section \<open>The walker of a node (WalkHTML)\<close>

text \<open>
  Modelled from the spec: \<open>lib/params.js\<close> is not among the sources. An array selector
  whose first element is an object runs one node per element of the scope,
  \<open>xray(scope, v[0])\<close> applied to the element; \<open>params\<close> is taken to give that node the
  same scope and \<open>v[0]\<close> as its selector. The state of that node is the initial one,
  without pagination, so its callback receives the walked value or the error.
\<close>

definition sub_node :: "env \<Rightarrow> string option \<Rightarrow> (dom \<Rightarrow> signal) \<Rightarrow> dom \<Rightarrow> outcome" where
  "sub_node E scope walkHTML innerscope =
     (case snd (node_start E scope walkHTML (SourceDoc innerscope)) of
        Inl err \<Rightarrow> Inl err
      | Inr (obj, d) \<Rightarrow> Inr obj)"

text \<open>
  The array \<open>out\<close> of the inner nodes' values may have holes (\<open>None\<close>); assigning beyond
  its end extends it.
\<close>

fun js_set :: "jsval option list \<Rightarrow> nat \<Rightarrow> jsval \<Rightarrow> jsval option list" where
  "js_set [] 0 v = [Some v]"
| "js_set [] (Suc i) v = None # js_set [] i v"
| "js_set (x # out) 0 v = Some v # out"
| "js_set (x # out) (Suc i) v = x # js_set out i v"

text \<open>
  Modelled from the spec: \<open>compact\<close> of \<open>lib/util.js\<close> is not among the sources. It is taken
  to be a filter of the array: the holes are dropped, and of the elements present those
  are kept that satisfy a predicate, the field \<open>compact_keep\<close> of the environment.
\<close>

definition compact :: "env \<Rightarrow> jsval option list \<Rightarrow> jsval list" where
  "compact E arr = filter (compact_keep E) (List.map_filter id arr)"

text \<open>
  The callback of the inner nodes (\<open>if (err) return next(err); out[i] = obj;
  if (!--pending) return next(null, compact(out))\<close>) is \<open>each_cb\<close>, on the variables
  \<open>pending\<close> and \<open>out\<close> of the closure and the calls of \<open>next\<close> made so far. \<open>each_scope\<close>
  runs the callbacks in the order \<open>order\<close> in which the inner nodes complete, \<open>results\<close>
  being what they complete with in document order, and gives the calls of \<open>next\<close> in
  sequence; with no element in scope, \<open>next(null, out)\<close> is called at once.
\<close>

record collector =
  pending :: int
  out :: "jsval option list"
  signals :: "outcome list"

definition each_cb :: "env \<Rightarrow> collector \<Rightarrow> nat \<times> outcome \<Rightarrow> collector" where
  "each_cb E c ir =
     (case snd ir of
        Inl err \<Rightarrow> c\<lparr>signals := signals c @ [Inl err]\<rparr>
      | Inr obj \<Rightarrow>
          (let out' = js_set (out c) (fst ir) obj;
               pending' = pending c - 1
           in c\<lparr>pending := pending', out := out',
                signals := (if pending' = 0 then signals c @ [Inr (JArr (compact E out'))]
                            else signals c)\<rparr>))"

definition each_scope :: "env \<Rightarrow> nat list \<Rightarrow> outcome list \<Rightarrow> outcome list" where
  "each_scope E order results =
     (let pending0 = int (length results);
          out0 = []
      in if pending0 = 0 then [Inr (JArr [])]
         else signals (foldl (each_cb E) \<lparr>pending = pending0, out = out0, signals = []\<rparr>
                        (map (\<lambda>i. (i, results ! i)) order)))"

text \<open>
  The callback \<open>function (v, k, next)\<close> of \<open>walkHTML\<close>, case by case in the order of the
  source: null and undefined, a string, a function, a regular expression, the custom
  types (the first whose validator accepts the value), an array of strings, an array of
  objects, and the unknown type, which is an error in strict mode when the validator
  rejects it and \<open>next()\<close> otherwise. \<open>xray_node innerscope v0\<close> stands for
  \<open>xray(scope, v0)($innerscope, ...)\<close>. The inner nodes of an array of objects complete
  in document order here, and the batch of \<open>walk\<close> takes the first call of \<open>next\<close>.
\<close>

fun first :: "sel \<Rightarrow> sel" where
  "first (SArr (v # vs)) = v"
| "first v = SUndefined"

definition custom_for :: "env \<Rightarrow> sel \<Rightarrow> custom_type option" where
  "custom_for E v =
     List.find (\<lambda>typeConfig. case validator typeConfig of None \<Rightarrow> False | Some p \<Rightarrow> p v)
       (customTypes E)"

definition leaf :: "env \<Rightarrow> bool \<Rightarrow> string option \<Rightarrow> (dom \<Rightarrow> sel \<Rightarrow> outcome) \<Rightarrow> dom \<Rightarrow>
    sel \<Rightarrow> string option \<Rightarrow> outcome" where
  "leaf E strictMode scope xray_node d v k =
     (if v = SNull \<or> v = SUndefined then Inr JNull
      else if typeof v = ''string'' then Inr (resolve E (SourceDoc d) (root E scope) v)
      else if typeof v = ''function'' then (case v of SFun f \<Rightarrow> call_fun E f d | _ \<Rightarrow> Inr JUndefined)
      else if instanceofRegExp v
      then (case v of
              SRegExp r \<Rightarrow>
                (let text = text_of E d
                 in case re_match E r text of
                      None \<Rightarrow> Inr JNull
                    | Some (m0, m1) \<Rightarrow> Inr (JStr (case m1 of Some g \<Rightarrow> g | None \<Rightarrow> m0)))
            | _ \<Rightarrow> Inr JUndefined)
      else (case custom_for E v of
              Some typeConfig \<Rightarrow> handler typeConfig v d scope
            | None \<Rightarrow>
                if isArray v \<and> typeof (first v) = ''string''
                then Inr (resolve E (SourceDoc d) (root E scope) v)
                else if isArray v \<and> typeof (first v) = ''object''
                then (let scoped = query E d scope
                      in hd (each_scope E [0..<length scoped]
                               (map (\<lambda>innerscope. xray_node innerscope (first v)) scoped)))
                else if strictMode
                then (case validateType E v k of
                        Some msg \<Rightarrow> Inl (TypeError msg)
                      | None \<Rightarrow> Inr JUndefined)
                else Inr JUndefined))"

text \<open>\<open>walkHTML\<close> calls itself through \<open>walk\<close>, the callback and the inner node, on the
  first element of an array selector inside the selector.\<close>

lemma isPlainObject_SObj: "isPlainObject val \<Longrightarrow> \<exists>c ps. val = SObj c ps"
  by (cases val) (auto simp: isPlainObject_def isObject_def)

lemma size_walk_cong_aux:
  "(\<And>u k. size u \<le> size val \<Longrightarrow> f u k = g u k) \<Longrightarrow> walk f val key = walk g val key"
  "(\<And>u k. size u \<le> size_list (size_prod (\<lambda>_. 0) size) ps \<Longrightarrow> f u k = g u k) \<Longrightarrow>
     walk_keys f ps acc = walk_keys g ps acc"
proof (induction f val key and f ps acc rule: walk_walk_keys.induct)
  case (1 fn val key)
  show ?case
  proof (cases "isPlainObject val")
    case False
    then show ?thesis using 1(2)[of val key] by (simp add: walk.simps)
  next
    case True
    then obtain c ps where v: "val = SObj c ps"
      using isPlainObject_SObj by blast
    have "walk_keys fn ps [] = walk_keys g ps []"
      using 1(1)[OF True v] 1(2) v by simp
    then show ?thesis using True v by (simp add: walk.simps)
  qed
next
  case (2 fn out)
  then show ?case by simp
next
  case (3 fn k v rest out)
  have a: "walk fn v (Some k) = walk g v (Some k)"
    using 3(1) 3(3) by simp
  have b: "walk_keys fn rest (if b \<noteq> JUndefined \<and> b \<noteq> JStr [] then set_prop out k b else out)
         = walk_keys g rest (if b \<noteq> JUndefined \<and> b \<noteq> JStr [] then set_prop out k b else out)"
    if "walk fn v (Some k) = Inr b" for b
    using 3(2)[OF that] 3(3) by simp
  show ?case using a b by (auto split: sum.splits)
qed

lemma walk_cong [fundef_cong]:
  "val = val' \<Longrightarrow> key = key' \<Longrightarrow> (\<And>u k. size u \<le> size val' \<Longrightarrow> f u k = g u k) \<Longrightarrow>
     walk f val key = walk g val' key'"
  using size_walk_cong_aux(1) by blast

lemma leaf_cong [fundef_cong]:
  assumes "v = v'"
    and sub: "\<And>innerscope. isArray v' \<Longrightarrow> typeof (first v') = ''object'' \<Longrightarrow>
       sub innerscope (first v') = sub' innerscope (first v')"
  shows "leaf E strictMode scope sub d v k = leaf E strictMode scope sub' d v' k"
proof (cases "isArray v'")
  case arr: True
  show ?thesis
  proof (cases "typeof (first v') = ''object''")
    case True
    then have feq: "(\<lambda>innerscope. sub innerscope (first v')) = (\<lambda>innerscope. sub' innerscope (first v'))"
      using sub arr by auto
    show ?thesis unfolding leaf_def \<open>v = v'\<close> feq by (rule refl)
  next
    case False
    then show ?thesis unfolding leaf_def \<open>v = v'\<close> Let_def using arr by simp
  qed
next
  case False
  then show ?thesis unfolding leaf_def \<open>v = v'\<close> Let_def by simp
qed

lemma sub_node_cong [fundef_cong]:
  "(\<And>d. wh d = wh' d) \<Longrightarrow> innerscope = innerscope' \<Longrightarrow>
     sub_node E scope wh innerscope = sub_node E scope wh' innerscope'"
proof -
  assume "\<And>d. wh d = wh' d" and "innerscope = innerscope'"
  then have "wh = wh'" by blast
  then show ?thesis using \<open>innerscope = innerscope'\<close> by simp
qed

lemma first_smaller: "isArray v \<Longrightarrow> typeof (first v) = ''object'' \<Longrightarrow> size (first v) < size v"
  by (cases v rule: first.cases) auto

function walkHTML :: "env \<Rightarrow> bool \<Rightarrow> string option \<Rightarrow> sel \<Rightarrow> dom \<Rightarrow> signal" where
  "walkHTML E strictMode scope selector d =
     (case (if strictMode then assertValidType E selector else None) of
        Some err \<Rightarrow> Inl err
      | None \<Rightarrow>
          (case walk (leaf E strictMode scope
                        (\<lambda>innerscope v0. sub_node E scope (walkHTML E strictMode scope v0) innerscope) d)
                  selector None of
             Inl err \<Rightarrow> Inl err
           | Inr obj \<Rightarrow> Inr (obj, d)))"
  by pat_completeness auto
termination
  apply (relation "measure (\<lambda>(E, strictMode, scope, selector, d). size selector)")
   apply simp
  apply (auto dest: first_smaller)
  done

declare walkHTML.simps [simp del]

text \<open>The callback \<open>walkHTML\<close> hands to \<open>walk\<close> for the document \<open>d\<close>.\<close>

definition callback :: "env \<Rightarrow> bool \<Rightarrow> string option \<Rightarrow> dom \<Rightarrow> sel \<Rightarrow> string option \<Rightarrow> outcome" where
  "callback E strictMode scope d =
     leaf E strictMode scope
       (\<lambda>innerscope v0. sub_node E scope (walkHTML E strictMode scope v0) innerscope) d"

section \<open>The pagination controller\<close>

text \<open>
  The limit of a node is a number or \<open>Infinity\<close>; \<open>--state.limit\<close> leaves \<open>Infinity\<close> as it
  is. \<open>paginate\<close> is the pagination selector (\<open>None\<close> for \<open>false\<close>), \<open>abort\<close> the abort
  predicate (\<open>None\<close> for \<open>false\<close>), \<open>pages\<close> the array of the closure.
\<close>

datatype jsnum = Finite int | Infinity

fun decrement :: "jsnum \<Rightarrow> jsnum" where
  "decrement (Finite n) = Finite (n - 1)"
| "decrement Infinity = Infinity"

fun le_zero :: "jsnum \<Rightarrow> bool" where
  "le_zero (Finite n) = (n \<le> 0)"
| "le_zero Infinity = False"

record state =
  paginate :: "string option"
  limit :: jsnum
  abort :: "(jsval \<Rightarrow> jsval \<Rightarrow> bool) option"
  pages :: "jsval list"

definition INIT_STATE :: state where
  "INIT_STATE = \<lparr>paginate = None, limit = Infinity, abort = None, pages = []\<rparr>"

fun isArrayValue :: "jsval \<Rightarrow> bool" where
  "isArrayValue (JArr xs) = True"
| "isArrayValue obj = False"

fun concat_pages :: "jsval list \<Rightarrow> jsval \<Rightarrow> jsval list" where
  "concat_pages buf (JArr xs) = buf @ xs"
| "concat_pages buf obj = buf @ [obj]"

text \<open>
  \<open>next(err, obj, $)\<close>: the new state, the events of the call, and the URL of the
  request it makes, if any (\<open>None\<close>: the call returned after reporting to \<open>fn\<close>).
\<close>

definition next_cb :: "env \<Rightarrow> state \<Rightarrow> signal \<Rightarrow> state \<times> event list \<times> jsval option" where
  "next_cb E st sig =
     (case sig of
        Inl err \<Rightarrow> (st, [Report (Inl err)], None)
      | Inr (obj, d) \<Rightarrow>
          (let limit' = decrement (limit st);
               st1 = st\<lparr>limit := limit'\<rparr>
           in case paginate st of
                None \<Rightarrow> (st1, [Stream obj True, Report (Inr obj)], None)
              | Some paginate' \<Rightarrow>
                  (let pages' = concat_pages (pages st) obj;
                       st2 = st1\<lparr>pages := pages'\<rparr>
                   in if le_zero limit'
                      then (st2, [Stream obj True, Report (Inr (JArr pages'))], None)
                      else
                        (let url = resolve E (SourceDoc d) (JBool False) (SStr paginate')
                         in if \<not> isUrl E url
                            then (st2, [Stream obj True, Report (Inr (JArr pages'))], None)
                            else
                              (case abort st of
                                 None \<Rightarrow> (st2, [Stream obj False], Some url)
                               | Some validator' \<Rightarrow>
                                   if validator' obj url
                                   then (st2, [AbortCall obj url, Stream obj True,
                                               Report (Inr (JArr pages'))], None)
                                   else (st2, [AbortCall obj url, Stream obj False],
                                         Some url))))))"

text \<open>
  A run from a signal on: \<open>next\<close> either returns or requests the next page, whose walk
  calls \<open>next\<close> again. The fuel bounds the number of calls of \<open>next\<close>; \<open>None\<close> is a run
  that has not ended within it.
\<close>

fun cycle :: "env \<Rightarrow> (dom \<Rightarrow> signal) \<Rightarrow> nat \<Rightarrow> state \<Rightarrow> signal \<Rightarrow> (state \<times> event list) option" where
  "cycle E walkHTML' 0 st sig = None"
| "cycle E walkHTML' (Suc fuel) st sig =
     (case next_cb E st sig of
        (st', evs, None) \<Rightarrow> Some (st', evs)
      | (st', evs, Some url) \<Rightarrow>
          (case cycle E walkHTML' fuel st' (request E url walkHTML') of
             None \<Rightarrow> None
           | Some (st'', evs') \<Rightarrow> Some (st'', evs @ Request url # evs')))"

definition node :: "env \<Rightarrow> bool \<Rightarrow> string option \<Rightarrow> sel \<Rightarrow> state \<Rightarrow> nat \<Rightarrow> source \<Rightarrow>
    (state \<times> event list) option" where
  "node E strictMode scope selector st fuel source =
     (case node_start E scope (walkHTML E strictMode scope selector) source of
        (evs, sig) \<Rightarrow>
          (case cycle E (walkHTML E strictMode scope selector) fuel st sig of
             None \<Rightarrow> None
           | Some (st', evs') \<Rightarrow> Some (st', evs @ evs')))"

text \<open>The calls of the result callback among the events of a run, the URLs requested, and
  the page values handed to the stream helper: every call of \<open>next\<close> with a walked page
  calls \<open>stream\<close> once, with the value of that page.\<close>

fun reports :: "event list \<Rightarrow> outcome list" where
  "reports [] = []"
| "reports (Report r # evs) = r # reports evs"
| "reports (ev # evs) = reports evs"

fun requests :: "event list \<Rightarrow> jsval list" where
  "requests [] = []"
| "requests (Request url # evs) = url # requests evs"
| "requests (ev # evs) = requests evs"

fun walked :: "event list \<Rightarrow> jsval list" where
  "walked [] = []"
| "walked (Stream obj end # evs) = obj # walked evs"
| "walked (ev # evs) = walked evs"

text \<open>Signals handed to \<open>next\<close> one after the other, as a crawler or a walker that calls
  back more than once does; \<open>next\<close> handles each call on its own. The events are those of
  the calls themselves; a request such a call makes is not followed.\<close>

fun deliver :: "env \<Rightarrow> state \<Rightarrow> signal list \<Rightarrow> state \<times> event list" where
  "deliver E st [] = (st, [])"
| "deliver E st (sig # sigs) =
     (case next_cb E st sig of
        (st', evs, url) \<Rightarrow> (case deliver E st' sigs of (st'', evs') \<Rightarrow> (st'', evs @ evs')))"

section \<open>The schema validator (lib/validate-types.js)\<close>

text \<open>
  \<open>validateType(value, path, options)\<close> with the custom types of the options, and
  \<open>validateObject\<close>, whose loop over the keys is \<open>validateTypes_validateProperties\<close>;
  \<open>keys_of\<close> is \<open>Object.keys\<close> and \<open>quoted\<close> puts a path between double quotes. The result
  is the record \<open>{valid, type, error}\<close>. \<open>assertValidType\<close> throws a \<open>TypeError\<close> with the
  message of an invalid result.
\<close>

record validation =
  valid :: bool
  vtype :: string
  error :: "string option"

fun keys_of :: "sel \<Rightarrow> (string \<times> sel) list" where
  "keys_of (SObj c ps) = ps"
| "keys_of v = []"

definition quoted :: "string \<Rightarrow> string" where
  "quoted path = [CHR 0x22] @ path @ [CHR 0x22]"

lemma size_keys_of: "size_list (size_prod (\<lambda>_. 0) size) (keys_of v) \<le> size v"
  by (cases v) simp_all

lemma size_keys_of_first:
  "isArray value \<Longrightarrow> value \<noteq> SArr [] \<Longrightarrow>
   size_list (size_prod (\<lambda>_. 0) size) (keys_of (first value)) < size value"
proof (cases "value" rule: first.cases)
  case (1 v vs)
  then show ?thesis using size_keys_of[of v] by simp
qed simp_all

function validateTypes_validateType :: "custom_type list \<Rightarrow> sel \<Rightarrow> string \<Rightarrow> validation"
and validateTypes_validateObject :: "custom_type list \<Rightarrow> (string \<times> sel) list \<Rightarrow> string \<Rightarrow> validation"
and validateTypes_validateProperties :: "custom_type list \<Rightarrow> (string \<times> sel) list \<Rightarrow> string \<Rightarrow> validation"
where
  "validateTypes_validateType cts value path0 =
     (let path = (if path0 = [] then ''selector'' else path0)
      in if value = SNull then \<lparr>valid = True, vtype = ''null'', error = None\<rparr>
         else if value = SUndefined then \<lparr>valid = True, vtype = ''undefined'', error = None\<rparr>
         else if typeof value = ''string'' then \<lparr>valid = True, vtype = ''string'', error = None\<rparr>
         else if typeof value = ''function'' then \<lparr>valid = True, vtype = ''function'', error = None\<rparr>
         else if instanceofRegExp value then \<lparr>valid = True, vtype = ''regexp'', error = None\<rparr>
         else if isArray value
         then (if value = SArr []
               then \<lparr>valid = False, vtype = ''array'',
                     error = Some (''Empty array selector at '' @ quoted path @
                                   ''. Arrays must contain at least one element.'')\<rparr>
               else if typeof (first value) = ''string''
               then \<lparr>valid = True, vtype = ''array-string'', error = None\<rparr>
               else if typeof (first value) = ''object'' \<and> first value \<noteq> SNull \<and> \<not> isArray (first value)
               then (let nestedValidation = validateTypes_validateObject cts (keys_of (first value)) (path @ ''[0]'')
                     in if \<not> valid nestedValidation then nestedValidation
                        else \<lparr>valid = True, vtype = ''array-object'', error = None\<rparr>)
               else \<lparr>valid = False, vtype = ''array'',
                     error = Some (''Invalid array selector at '' @ quoted path @
                                   ''. Arrays must contain either a string or an object, got '' @
                                   typeof (first value) @ ''.'')\<rparr>)
         else if typeof value = ''object'' \<and> value \<noteq> SNull
         then validateTypes_validateObject cts (keys_of value) path
         else (case List.find (\<lambda>h. case validator h of None \<Rightarrow> False | Some p \<Rightarrow> p value) cts of
                 Some h \<Rightarrow> \<lparr>valid = True, vtype = ''custom:'' @ type_name h, error = None\<rparr>
               | None \<Rightarrow>
                   \<lparr>valid = False, vtype = typeof value,
                    error = Some (''Unsupported selector type at '' @ quoted path @ ''. Got '' @
                                  typeof value @
                                  '', expected string, function, array, object, RegExp, null, or undefined.'')\<rparr>))"
| "validateTypes_validateObject cts keys path =
     (if length keys = 0
      then \<lparr>valid = False, vtype = ''object'',
            error = Some (''Empty object selector at '' @ quoted path @
                          ''. Objects must contain at least one property.'')\<rparr>
      else validateTypes_validateProperties cts keys path)"
| "validateTypes_validateProperties cts [] path = \<lparr>valid = True, vtype = ''object'', error = None\<rparr>"
| "validateTypes_validateProperties cts ((key, value) # rest) path =
     (let validation = validateTypes_validateType cts value (path @ ''.'' @ key)
      in if \<not> valid validation then validation
         else validateTypes_validateProperties cts rest path)"
  by pat_completeness auto
termination
proof (relation "measure (\<lambda>x. case x of
            Inl (cts, v, path) \<Rightarrow> 2 * size v + 2
          | Inr (Inl (cts, ps, path)) \<Rightarrow> 2 * size_list (size_prod (\<lambda>_. 0) size) ps + 1
          | Inr (Inr (cts, ps, path)) \<Rightarrow> 2 * size_list (size_prod (\<lambda>_. 0) size) ps)", goal_cases)
  case 1
  then show ?case by simp
next
  case (2 cts val path0 x)
  then show ?case using size_keys_of_first[of val] by simp
next
  case (3 cts val path0 x)
  then show ?case using size_keys_of[of val] by simp
next
  case (4 cts ks path)
  then show ?case by simp
next
  case (5 cts key val rest path)
  then show ?case by simp
next
  case (6 cts key val rest path x)
  then show ?case by simp
qed

declare validateTypes_validateType.simps [simp del] validateTypes_validateObject.simps [simp del]

definition validateTypes_assertValidType :: "custom_type list \<Rightarrow> sel \<Rightarrow> string \<Rightarrow> failure option" where
  "validateTypes_assertValidType cts value path =
     (let validation = validateTypes_validateType cts value path
      in if \<not> valid validation
         then Some (TypeError (case error validation of Some msg \<Rightarrow> msg | None \<Rightarrow> []))
         else None)"

text \<open>
  A leaf of unsupported type: a value the callback of \<open>walkHTML\<close> has no case for (a
  number, a boolean, an empty array, an array of numbers, an instance of a class no custom
  type accepts) and \<open>walk\<close> does not walk as a plain object.
\<close>

definition unsupported :: "env \<Rightarrow> sel \<Rightarrow> bool" where
  "unsupported E v =
     (v \<noteq> SNull \<and> v \<noteq> SUndefined \<and> typeof v \<noteq> ''string'' \<and> typeof v \<noteq> ''function'' \<and>
      \<not> instanceofRegExp v \<and> custom_for E v = None \<and>
      \<not> (isArray v \<and> typeof (first v) = ''string'') \<and>
      \<not> (isArray v \<and> typeof (first v) = ''object'') \<and> \<not> isPlainObject v)"


section \<open>A site of three pages\<close>

text \<open>
  A concrete environment, for running the definitions: three pages linked by
  \<open>a.next@href\<close> (the third has no link), a resolver that knows the selectors \<open>h1\<close>
  (the name of the page), \<open>.blank\<close> (the empty string) and the link, a list of two \<open>li\<close>
  elements on the first page, no custom type, and the schema validator of
  \<open>lib/validate-types.js\<close>. \<open>number_error path\<close> is the error of that validator for a
  number at \<open>path\<close>.
\<close>

fun page_of :: "dom \<Rightarrow> string" where
  "page_of (Parsed s) = s"
| "page_of (Absolutes url d) = page_of d"

definition site_isUrl :: "jsval \<Rightarrow> bool" where
  "site_isUrl v = (case v of JStr s \<Rightarrow> take 7 s = ''http://'' | _ \<Rightarrow> False)"

definition site_resolve :: "source \<Rightarrow> jsval \<Rightarrow> sel \<Rightarrow> jsval" where
  "site_resolve src scope v =
     (case src of
        SourceDoc d \<Rightarrow>
          (if v = SStr ''a.next@href''
           then (if page_of d = ''page1'' then JStr ''http://site/2''
                 else if page_of d = ''page2'' then JStr ''http://site/3''
                 else JUndefined)
           else if v = SStr ''h1'' then (if page_of d = [] then JUndefined else JStr (page_of d))
           else if v = SArr [SStr ''h1''] then (if page_of d = [] then JArr [] else JArr [JStr (page_of d)])
           else if v = SStr ''.blank'' then JStr []
           else JUndefined)
      | _ \<Rightarrow> JUndefined)"

definition site_crawl :: "jsval \<Rightarrow> failure + string" where
  "site_crawl url =
     (if url = JStr ''http://site/1'' then Inr ''page1''
      else if url = JStr ''http://site/2'' then Inr ''page2''
      else if url = JStr ''http://site/3'' then Inr ''page3''
      else Inl (FetchError ''not found''))"

definition site_assert :: "sel \<Rightarrow> failure option" where
  "site_assert v = validateTypes_assertValidType [] v ''selector''"

definition site_validate :: "sel \<Rightarrow> string option \<Rightarrow> string option" where
  "site_validate v k =
     (let validation = validateTypes_validateType [] v (case k of None \<Rightarrow> [] | Some key \<Rightarrow> key)
      in if valid validation then None else error validation)"

definition number_error :: "string \<Rightarrow> failure" where
  "number_error path =
     TypeError (''Unsupported selector type at '' @ quoted path @
                ''. Got number, expected string, function, array, object, RegExp, null, or undefined.'')"

text \<open>A custom type, as the tests register one: its validator accepts the instances of
  the class \<open>NumberType\<close>, its handler gives the number 42.\<close>

definition number_type :: custom_type where
  "number_type =
     \<lparr>type_name = ''number'',
      handler = (\<lambda>v d scope. Inr (JNum 42)),
      validator = Some (\<lambda>v. case v of SObj c ps \<Rightarrow> c = CClass ''NumberType'' | _ \<Rightarrow> False)\<rparr>"

text \<open>An abort predicate that holds of a result with two items or more.\<close>

definition two_items :: "jsval \<Rightarrow> jsval \<Rightarrow> bool" where
  "two_items result url = (case result of JArr xs \<Rightarrow> 2 \<le> length xs | _ \<Rightarrow> False)"

text \<open>An abort predicate that holds when the next page is the third.\<close>

definition before_third :: "jsval \<Rightarrow> jsval \<Rightarrow> bool" where
  "before_third result url = (url = JStr ''http://site/3'')"

definition site :: env where
  "site = \<lparr>isUrl = site_isUrl,
            root = (\<lambda>scope. case scope of None \<Rightarrow> JBool False | Some s \<Rightarrow> JStr s),
            resolve = site_resolve,
            compact_keep = truthy,
            crawl = site_crawl,
            query = (\<lambda>d scope. if scope = Some ''li'' \<and> page_of d = ''page1''
                                then [Parsed ''first'', Parsed ''second''] else []),
            text_of = page_of,
            re_match = (\<lambda>r text. None),
            call_fun = (\<lambda>f d. Inl (HandlerError ''failed'')),
            customTypes = [],
            assertValidType = site_assert,
            validateType = site_validate\<rparr>"

text \<open>The same site with a link to follow on every page and a crawler that never fails.\<close>

definition endless :: env where
  "endless = site\<lparr>resolve := (\<lambda>src scope v. JStr ''http://site/1''),
                   crawl := (\<lambda>url. Inr ''page1'')\<rparr>"

lemmas site_defs = site_def site_isUrl_def site_resolve_def site_crawl_def site_assert_def
  site_validate_def number_error_def quoted_def validateTypes_assertValidType_def
  validateTypes_validateType.simps validateTypes_validateObject.simps

section \<open>Unfolding the walker\<close>

lemma isPlainObject_simps [simp]:
  "isPlainObject SUndefined = False"
  "isPlainObject SNull = False"
  "isPlainObject (SBool b) = False"
  "isPlainObject (SNum n) = False"
  "isPlainObject (SStr s) = False"
  "isPlainObject (SFun f) = False"
  "isPlainObject (SRegExp r) = False"
  "isPlainObject (SArr vs) = False"
  "isPlainObject (SObj c ps) = (c = CObject \<or> c = CUndefined)"
  by (simp_all add: isPlainObject_def isObject_def)

lemma walk_leaf: "\<not> isPlainObject v \<Longrightarrow> walk fn v key = fn v key"
  by (simp add: walk.simps)

lemma walk_plain:
  "isPlainObject (SObj c ps) \<Longrightarrow>
   walk fn (SObj c ps) key = (case walk_keys fn ps [] of Inl err \<Rightarrow> Inl err | Inr res \<Rightarrow> Inr (JObj res))"
  by (simp add: walk.simps)

lemma leaf_null [simp]:
  "leaf E strictMode scope sub d SNull k = Inr JNull"
  "leaf E strictMode scope sub d SUndefined k = Inr JNull"
  by (simp_all add: leaf_def)

lemma leaf_string [simp]:
  "leaf E strictMode scope sub d (SStr s) k = Inr (resolve E (SourceDoc d) (root E scope) (SStr s))"
  by (simp add: leaf_def)

lemma leaf_function [simp]:
  "leaf E strictMode scope sub d (SFun f) k = call_fun E f d"
  by (simp add: leaf_def)

lemma leaf_regexp [simp]:
  "leaf E strictMode scope sub d (SRegExp r) k =
     (case re_match E r (text_of E d) of
        None \<Rightarrow> Inr JNull
      | Some (m0, m1) \<Rightarrow> Inr (JStr (case m1 of Some g \<Rightarrow> g | None \<Rightarrow> m0)))"
  by (simp add: leaf_def)

lemma leaf_custom:
  "v \<noteq> SNull \<Longrightarrow> v \<noteq> SUndefined \<Longrightarrow> typeof v \<noteq> ''string'' \<Longrightarrow> typeof v \<noteq> ''function'' \<Longrightarrow>
   \<not> instanceofRegExp v \<Longrightarrow> custom_for E v = Some typeConfig \<Longrightarrow>
   leaf E strictMode scope sub d v k = handler typeConfig v d scope"
  by (simp add: leaf_def)

lemma leaf_array_objects:
  "custom_for E (SArr (v0 # vs)) = None \<Longrightarrow> typeof v0 = ''object'' \<Longrightarrow>
   leaf E strictMode scope sub d (SArr (v0 # vs)) k =
     hd (each_scope E [0..<length (query E d scope)] (map (\<lambda>innerscope. sub innerscope v0) (query E d scope)))"
  by (simp add: leaf_def Let_def)

lemma leaf_array_strings:
  "custom_for E (SArr (v0 # vs)) = None \<Longrightarrow> typeof v0 = ''string'' \<Longrightarrow>
   leaf E strictMode scope sub d (SArr (v0 # vs)) k = Inr (resolve E (SourceDoc d) (root E scope) (SArr (v0 # vs)))"
  by (simp add: leaf_def)

lemma leaf_unsupported:
  "unsupported E v \<Longrightarrow>
   leaf E strictMode scope sub d v k =
     (if strictMode
      then (case validateType E v k of Some msg \<Rightarrow> Inl (TypeError msg) | None \<Rightarrow> Inr JUndefined)
      else Inr JUndefined)"
  by (cases "isArray v") (simp_all add: leaf_def unsupported_def)

lemma walkHTML_unfold:
  "walkHTML E strictMode scope (SObj c ps) d =
     (case (if strictMode then assertValidType E (SObj c ps) else None) of
        Some err \<Rightarrow> Inl err
      | None \<Rightarrow>
          (case walk (leaf E strictMode scope
                        (\<lambda>innerscope v0. sub_node E scope (walkHTML E strictMode scope v0) innerscope) d)
                  (SObj c ps) None of
             Inl err \<Rightarrow> Inl err
           | Inr obj \<Rightarrow> Inr (obj, d)))"
  "walkHTML E strictMode scope (SArr vs) d =
     (case (if strictMode then assertValidType E (SArr vs) else None) of
        Some err \<Rightarrow> Inl err
      | None \<Rightarrow>
          (case walk (leaf E strictMode scope
                        (\<lambda>innerscope v0. sub_node E scope (walkHTML E strictMode scope v0) innerscope) d)
                  (SArr vs) None of
             Inl err \<Rightarrow> Inl err
           | Inr obj \<Rightarrow> Inr (obj, d)))"
  by (rule walkHTML.simps)+

lemma walkHTML_callback:
  "walkHTML E strictMode scope selector d =
     (case (if strictMode then assertValidType E selector else None) of
        Some err \<Rightarrow> Inl err
      | None \<Rightarrow>
          (case walk (callback E strictMode scope d) selector None of
             Inl err \<Rightarrow> Inl err
           | Inr obj \<Rightarrow> Inr (obj, d)))"
  unfolding callback_def by (rule walkHTML.simps)

lemmas run_defs = node_def node_start_def request_def next_cb_def load_def INIT_STATE_def
  composed_def walkHTML_unfold walk_leaf walk_plain Let_def

section \<open>Calls of next\<close>

text \<open>
  What one call of \<open>next\<close> does to the pages, the limit and the events, and what follows
  for a run: every walked page is pushed onto the pages, a finite limit of \<open>n\<close> ends a
  run after \<open>n\<close> pages.
\<close>

lemma concat_pages_value: "\<not> isArrayValue obj \<Longrightarrow> concat_pages buf obj = buf @ [obj]"
  by (cases obj) simp_all

lemma reports_append: "reports (xs @ ys) = reports xs @ reports ys"
  by (induction xs rule: reports.induct) simp_all

lemma requests_append: "requests (xs @ ys) = requests xs @ requests ys"
  by (induction xs rule: requests.induct) simp_all

lemma walked_append: "walked (xs @ ys) = walked xs @ walked ys"
  by (induction xs rule: walked.induct) simp_all

lemma next_cb_returns:
  assumes "next_cb E st sig = (st', evs, None)"
  shows "\<exists>r. reports evs = [r] \<and> last evs = Report r"
  using assms
  by (auto simp: next_cb_def Let_def split: sum.splits option.splits if_splits prod.splits)

lemma next_cb_requests:
  assumes "next_cb E st sig = (st', evs, Some url)"
  shows "reports evs = [] \<and> limit st' = decrement (limit st) \<and> \<not> le_zero (limit st')"
  using assms
  by (auto simp: next_cb_def Let_def split: sum.splits option.splits if_splits prod.splits)

lemma next_cb_walked:
  "walked (fst (snd (next_cb E st (Inr (obj, d))))) = [obj]"
  "walked (fst (snd (next_cb E st (Inl err)))) = []"
  by (simp_all add: next_cb_def Let_def split: option.splits)

lemma next_cb_pushes:
  assumes "paginate st = Some p" and "next_cb E st sig = (st', evs, cont)"
  shows "paginate st' = Some p \<and> pages st' = foldl concat_pages (pages st) (walked evs) \<and>
         (\<forall>r. reports evs = [Inr r] \<longrightarrow> r = JArr (pages st'))"
  using assms
  by (auto simp: next_cb_def Let_def split: sum.splits option.splits if_splits prod.splits)

lemma cycle_pushes:
  "paginate st = Some p \<Longrightarrow> cycle E wh fuel st sig = Some (st', evs) \<Longrightarrow>
   pages st' = foldl concat_pages (pages st) (walked evs) \<and>
   (\<forall>r. reports evs = [Inr r] \<longrightarrow> r = JArr (pages st'))"
proof (induction fuel arbitrary: st sig st' evs)
  case 0
  then show ?case by simp
next
  case (Suc fuel)
  obtain st1 evs1 cont where step: "next_cb E st sig = (st1, evs1, cont)"
    by (cases "next_cb E st sig") auto
  note push = next_cb_pushes[OF Suc.prems(1) step]
  show ?case
  proof (cases cont)
    case None
    with Suc.prems step have "st' = st1" "evs = evs1" by simp_all
    with push show ?thesis by auto
  next
    case (Some url)
    with Suc.prems step obtain st2 evs2 where
      rest: "cycle E wh fuel st1 (request E url wh) = Some (st2, evs2)"
      and evs: "evs = evs1 @ Request url # evs2" and st': "st' = st2"
      by (auto split: option.splits)
    from push have p1: "paginate st1 = Some p" by simp
    note ih = Suc.IH[OF p1 rest]
    have "reports evs1 = []" using next_cb_requests step Some by blast
    then show ?thesis
      using ih push evs st' by (auto simp: walked_append reports_append)
  qed
qed

lemma foldl_concat_values:
  "list_all (\<lambda>obj. \<not> isArrayValue obj) objs \<Longrightarrow> foldl concat_pages buf objs = buf @ objs"
  by (induction objs arbitrary: buf) (simp_all add: concat_pages_value)

lemma next_cb_at_limit:
  assumes "paginate st = Some p" and "limit st = Finite n" and "n \<le> 1"
  shows "next_cb E st (Inr (obj, d)) =
           (st\<lparr>limit := Finite (n - 1), pages := concat_pages (pages st) obj\<rparr>,
            [Stream obj True, Report (Inr (JArr (concat_pages (pages st) obj)))], None)"
  using assms by (simp add: next_cb_def Let_def)

lemma next_cb_below_limit:
  assumes "paginate st = Some p" and "limit st = Finite n" and "1 < n" and "abort st = None"
    and "isUrl E (resolve E (SourceDoc d) (JBool False) (SStr p))"
  shows "next_cb E st (Inr (obj, d)) =
           (st\<lparr>limit := Finite (n - 1), pages := concat_pages (pages st) obj\<rparr>,
            [Stream obj False], Some (resolve E (SourceDoc d) (JBool False) (SStr p)))"
  using assms by (simp add: next_cb_def Let_def)

lemma cycle_counts_pages:
  assumes res: "\<forall>d. isUrl E (resolve E (SourceDoc d) (JBool False) (SStr p))"
    and fetch: "\<forall>url. \<exists>obj d. request E url wh = Inr (obj, d)"
  shows "paginate st = Some p \<Longrightarrow> abort st = None \<Longrightarrow> limit st = Finite (int (Suc m)) \<Longrightarrow>
         \<exists>st' evs. cycle E wh (Suc m + k) st (Inr (obj, d)) = Some (st', evs) \<and>
            length (walked evs) = Suc m \<and> length (requests evs) = m \<and>
            reports evs = [Inr (JArr (pages st'))] \<and> limit st' = Finite 0"
proof (induction m arbitrary: st obj d)
  case 0
  then show ?case
    using next_cb_at_limit[of st p 1 E obj d] by simp
next
  case (Suc m)
  let ?url = "resolve E (SourceDoc d) (JBool False) (SStr p)"
  let ?st = "st\<lparr>limit := Finite (int (Suc (Suc m)) - 1), pages := concat_pages (pages st) obj\<rparr>"
  have step: "next_cb E st (Inr (obj, d)) = (?st, [Stream obj False], Some ?url)"
    using Suc.prems res by (intro next_cb_below_limit) auto
  from fetch obtain obj' d' where page: "request E ?url wh = Inr (obj', d')" by blast
  have "paginate ?st = Some p" "abort ?st = None" "limit ?st = Finite (int (Suc m))"
    using Suc.prems by simp_all
  from Suc.IH[OF this, of obj' d'] obtain st' evs where
    run: "cycle E wh (Suc m + k) ?st (Inr (obj', d')) = Some (st', evs)" and
    facts: "length (walked evs) = Suc m" "length (requests evs) = m"
      "reports evs = [Inr (JArr (pages st'))]" "limit st' = Finite 0"
    by blast
  have "cycle E wh (Suc (Suc m) + k) st (Inr (obj, d)) = Some (st', [Stream obj False] @ Request ?url # evs)"
    using step page run by simp
  then show ?case using facts by (simp add: walked_append requests_append reports_append)
qed

lemma next_cb_limit:
  "limit (fst (next_cb E st (Inr (obj, d)))) = decrement (limit st)"
  by (simp add: next_cb_def Let_def split: option.splits)

lemma next_cb_unbounded:
  assumes "limit st = Infinity" and "paginate st = Some p"
    and "next_cb E st (Inr (obj, d)) = (st', evs, None)"
  shows "\<not> isUrl E (resolve E (SourceDoc d) (JBool False) (SStr p)) \<or>
         (\<exists>f. abort st = Some f \<and> f obj (resolve E (SourceDoc d) (JBool False) (SStr p)))"
  using assms by (auto simp: next_cb_def Let_def split: option.splits if_splits)

lemma endless_request:
  "request endless url (walkHTML endless False None (SStr ''h1'')) =
     Inr (JStr ''http://site/1'', load (SourceStr ''page1'') url)"
  by (simp add: endless_def site_def request_def walkHTML_callback walk_leaf callback_def)

section \<open>Stopping and reporting\<close>

text \<open>
  C6. When the pagination selector does not resolve to a URL on some page (the first or a
  later one: \<open>st\<close> is any state of a paginating node and \<open>(obj, d)\<close> the walked value and
  the document of that page), the run ends with that call of \<open>next\<close>: the value of the
  page is added to the pages, the stream is ended, the pages are reported as the result,
  no request is made and no error is reported.
\<close>

theorem unresolved_target_stops:
  assumes "paginate st = Some p"
    and "\<not> isUrl E (resolve E (SourceDoc d) (JBool False) (SStr p))"
  shows "cycle E wh (Suc fuel) st (Inr (obj, d)) =
           Some (st\<lparr>limit := decrement (limit st), pages := concat_pages (pages st) obj\<rparr>,
                 [Stream obj True, Report (Inr (JArr (concat_pages (pages st) obj)))])"
  using assms by (simp add: next_cb_def Let_def)

theorem unresolved_target_stops_witness:
  "paginate (INIT_STATE\<lparr>paginate := Some ''a.next@href'', pages := [JStr ''page2'']\<rparr>) = Some ''a.next@href'' \<and>
   \<not> isUrl site (resolve site (SourceDoc (Parsed ''page3'')) (JBool False) (SStr ''a.next@href'')) \<and>
   cycle site (walkHTML site False None (SStr ''h1'')) (Suc 0)
     (INIT_STATE\<lparr>paginate := Some ''a.next@href'', pages := [JStr ''page2'']\<rparr>)
     (Inr (JStr ''page3'', Parsed ''page3'')) =
   Some (\<lparr>paginate = Some ''a.next@href'', limit = Infinity, abort = None,
           pages = [JStr ''page2'', JStr ''page3'']\<rparr>,
         [Stream (JStr ''page3'') True, Report (Inr (JArr [JStr ''page2'', JStr ''page3'']))])"
  using unresolved_target_stops [of "INIT_STATE\<lparr>paginate := Some ''a.next@href'', pages := [JStr ''page2'']\<rparr>"
      "''a.next@href''" site "Parsed ''page3''" "walkHTML site False None (SStr ''h1'')" 0 "JStr ''page3''"]
  by (simp add: site_defs INIT_STATE_def)

text \<open>
  C4 (as stated). With pagination on and a page value that is not an array, the value
  handed to the result callback would be the latest page's value alone. It is not: on the
  site of three pages, a run with limit 2 and the object selector \<open>{title: 'h1'}\<close> reports
  the array of both page values, not the value of page 2.
\<close>

theorem latest_page_only_counterexample:
  "node site False None (SObj CObject [(''title'', SStr ''h1'')])
     (INIT_STATE\<lparr>paginate := Some ''a.next@href'', limit := Finite 2\<rparr>) (Suc (Suc 0))
     (SourceStr ''page1'') =
   Some (\<lparr>paginate = Some ''a.next@href'', limit = Finite 0, abort = None,
           pages = [JObj [(''title'', JStr ''page1'')], JObj [(''title'', JStr ''page2'')]]\<rparr>,
         [Stream (JObj [(''title'', JStr ''page1'')]) False,
          Request (JStr ''http://site/2''),
          Stream (JObj [(''title'', JStr ''page2'')]) True,
          Report (Inr (JArr [JObj [(''title'', JStr ''page1'')],
                             JObj [(''title'', JStr ''page2'')]]))])"
  by (simp add: site_defs run_defs)

text \<open>
  C4 (amended). With pagination on, the value reported to the result callback is the
  internal buffer of all page values in page order. A call of \<open>next\<close> that ends the run
  with a page value that is not an array reports the pages so far with that value last,
  while the stream helper's final call receives that value alone. Every call of \<open>next\<close>
  with a walked page hands it to the stream helper and pushes it, whether the run goes on
  or ends: at the end of a run the pages are those of the start with
  every walked value accumulated in order, and a successful run reports them; from no
  pages at the start and page values that are not arrays, the value reported is the list
  of all walked values in page order.
\<close>

theorem paginated_report_is_buffer:
  "(paginate st = Some p \<and> \<not> isArrayValue obj \<and> next_cb E st (Inr (obj, d)) = (st', evs, None) \<longrightarrow>
      reports evs = [Inr (JArr (pages st @ [obj]))] \<and> pages st' = pages st @ [obj] \<and>
      Stream obj True \<in> set evs) \<and>
   walked (fst (snd (next_cb E st (Inr (obj, d))))) = [obj] \<and>
   (paginate st = Some p \<longrightarrow>
      pages (fst (next_cb E st (Inr (obj, d)))) = concat_pages (pages st) obj) \<and>
   (paginate st = Some p \<and> cycle E wh fuel st sig = Some (st1, evs1) \<longrightarrow>
      pages st1 = foldl concat_pages (pages st) (walked evs1) \<and>
      (reports evs1 = [Inr r] \<longrightarrow> r = JArr (foldl concat_pages (pages st) (walked evs1)))) \<and>
   (paginate st = Some p \<and> pages st = [] \<and> cycle E wh fuel st sig = Some (st1, evs1) \<and>
    list_all (\<lambda>obj. \<not> isArrayValue obj) (walked evs1) \<and> reports evs1 = [Inr r] \<longrightarrow>
      r = JArr (walked evs1))"
proof (intro conjI impI)
  assume a: "paginate st = Some p \<and> \<not> isArrayValue obj \<and> next_cb E st (Inr (obj, d)) = (st', evs, None)"
  then show "reports evs = [Inr (JArr (pages st @ [obj]))]" "pages st' = pages st @ [obj]"
      "Stream obj True \<in> set evs"
    by (auto simp: next_cb_def Let_def concat_pages_value split: if_splits option.splits)
next
  show "walked (fst (snd (next_cb E st (Inr (obj, d))))) = [obj]"
    by (rule next_cb_walked)
next
  assume "paginate st = Some p"
  then show "pages (fst (next_cb E st (Inr (obj, d)))) = concat_pages (pages st) obj"
    by (simp add: next_cb_def Let_def split: option.splits)
next
  assume a: "paginate st = Some p \<and> cycle E wh fuel st sig = Some (st1, evs1)"
  then show "pages st1 = foldl concat_pages (pages st) (walked evs1)"
    using cycle_pushes by blast
  assume "reports evs1 = [Inr r]"
  then show "r = JArr (foldl concat_pages (pages st) (walked evs1))"
    using a cycle_pushes by metis
next
  assume a: "paginate st = Some p \<and> pages st = [] \<and> cycle E wh fuel st sig = Some (st1, evs1) \<and>
    list_all (\<lambda>obj. \<not> isArrayValue obj) (walked evs1) \<and> reports evs1 = [Inr r]"
  then have "r = JArr (foldl concat_pages (pages st) (walked evs1))"
    using cycle_pushes by metis
  then show "r = JArr (walked evs1)"
    using a by (simp add: foldl_concat_values)
qed

theorem paginated_report_is_buffer_witness:
  "paginate \<lparr>paginate = Some ''a.next@href'', limit = Finite 1, abort = None,
      pages = [JObj [(''title'', JStr ''page1'')]]\<rparr> = Some ''a.next@href'' \<and>
   \<not> isArrayValue (JObj [(''title'', JStr ''page2'')]) \<and>
   next_cb site \<lparr>paginate = Some ''a.next@href'', limit = Finite 1, abort = None,
      pages = [JObj [(''title'', JStr ''page1'')]]\<rparr>
     (Inr (JObj [(''title'', JStr ''page2'')], Parsed ''page2'')) =
     (\<lparr>paginate = Some ''a.next@href'', limit = Finite 0, abort = None,
        pages = [JObj [(''title'', JStr ''page1'')], JObj [(''title'', JStr ''page2'')]]\<rparr>,
      [Stream (JObj [(''title'', JStr ''page2'')]) True,
       Report (Inr (JArr [JObj [(''title'', JStr ''page1'')], JObj [(''title'', JStr ''page2'')]]))],
      None) \<and>
   cycle site (walkHTML site False None (SObj CObject [(''title'', SStr ''h1'')])) (Suc (Suc (Suc 0)))
     \<lparr>paginate = Some ''a.next@href'', limit = Infinity, abort = None, pages = []\<rparr>
     (Inr (JObj [(''title'', JStr ''page1'')], Parsed ''page1'')) =
   Some (\<lparr>paginate = Some ''a.next@href'', limit = Infinity, abort = None,
           pages = [JObj [(''title'', JStr ''page1'')], JObj [(''title'', JStr ''page2'')],
                    JObj [(''title'', JStr ''page3'')]]\<rparr>,
         [Stream (JObj [(''title'', JStr ''page1'')]) False, Request (JStr ''http://site/2''),
          Stream (JObj [(''title'', JStr ''page2'')]) False, Request (JStr ''http://site/3''),
          Stream (JObj [(''title'', JStr ''page3'')]) True,
          Report (Inr (JArr [JObj [(''title'', JStr ''page1'')], JObj [(''title'', JStr ''page2'')],
                             JObj [(''title'', JStr ''page3'')]]))]) \<and>
   walked [Stream (JObj [(''title'', JStr ''page1'')]) False, Request (JStr ''http://site/2''),
          Stream (JObj [(''title'', JStr ''page2'')]) False, Request (JStr ''http://site/3''),
          Stream (JObj [(''title'', JStr ''page3'')]) True,
          Report (Inr (JArr [JObj [(''title'', JStr ''page1'')], JObj [(''title'', JStr ''page2'')],
                             JObj [(''title'', JStr ''page3'')]]))] =
     [JObj [(''title'', JStr ''page1'')], JObj [(''title'', JStr ''page2'')],
      JObj [(''title'', JStr ''page3'')]] \<and>
   list_all (\<lambda>obj. \<not> isArrayValue obj)
     [JObj [(''title'', JStr ''page1'')], JObj [(''title'', JStr ''page2'')],
      JObj [(''title'', JStr ''page3'')]]"
proof -
  let ?evs = "[Stream (JObj [(''title'', JStr ''page1'')]) False, Request (JStr ''http://site/2''),
          Stream (JObj [(''title'', JStr ''page2'')]) False, Request (JStr ''http://site/3''),
          Stream (JObj [(''title'', JStr ''page3'')]) True,
          Report (Inr (JArr [JObj [(''title'', JStr ''page1'')], JObj [(''title'', JStr ''page2'')],
                             JObj [(''title'', JStr ''page3'')]]))]"
  note w = paginated_report_is_buffer [where E = site and p = "''a.next@href''"
      and st = "\<lparr>paginate = Some ''a.next@href'', limit = Finite 1, abort = None,
         pages = [JObj [(''title'', JStr ''page1'')]]\<rparr>"
      and obj = "JObj [(''title'', JStr ''page2'')]" and d = "Parsed ''page2''"
      and st' = "\<lparr>paginate = Some ''a.next@href'', limit = Finite 0, abort = None,
        pages = [JObj [(''title'', JStr ''page1'')], JObj [(''title'', JStr ''page2'')]]\<rparr>"
      and evs = "[Stream (JObj [(''title'', JStr ''page2'')]) True,
       Report (Inr (JArr [JObj [(''title'', JStr ''page1'')], JObj [(''title'', JStr ''page2'')]]))]"]
  note r = paginated_report_is_buffer [where E = site and p = "''a.next@href''"
      and st = "\<lparr>paginate = Some ''a.next@href'', limit = Infinity, abort = None, pages = []\<rparr>"
      and wh = "walkHTML site False None (SObj CObject [(''title'', SStr ''h1'')])"
      and fuel = "Suc (Suc (Suc 0))"
      and sig = "Inr (JObj [(''title'', JStr ''page1'')], Parsed ''page1'')"
      and ?st1.0 = "\<lparr>paginate = Some ''a.next@href'', limit = Infinity, abort = None,
           pages = [JObj [(''title'', JStr ''page1'')], JObj [(''title'', JStr ''page2'')],
                    JObj [(''title'', JStr ''page3'')]]\<rparr>"
      and ?evs1.0 = ?evs
      and r = "JArr [JObj [(''title'', JStr ''page1'')], JObj [(''title'', JStr ''page2'')],
                     JObj [(''title'', JStr ''page3'')]]"]
  show ?thesis
    using w r by (simp add: site_defs run_defs)
qed

text \<open>
  C5 (as stated). The abort predicate would receive the accumulated result as its first
  argument. It receives the value of the current page: on the site of three pages, with
  one item a page, limit 3 and a predicate that holds of two items or more, the predicate
  is called with one item on page 1 and on page 2 and the third page is fetched, although
  the two items accumulated after page 2 satisfy the predicate.
\<close>

theorem abort_sees_accumulation_counterexample:
  "node site False None (SArr [SStr ''h1''])
     \<lparr>paginate = Some ''a.next@href'', limit = Finite 3, abort = Some two_items, pages = []\<rparr>
     (Suc (Suc (Suc 0))) (SourceStr ''page1'') =
   Some (\<lparr>paginate = Some ''a.next@href'', limit = Finite 0, abort = Some two_items,
           pages = [JStr ''page1'', JStr ''page2'', JStr ''page3'']\<rparr>,
         [AbortCall (JArr [JStr ''page1'']) (JStr ''http://site/2''),
          Stream (JArr [JStr ''page1'']) False,
          Request (JStr ''http://site/2''),
          AbortCall (JArr [JStr ''page2'']) (JStr ''http://site/3''),
          Stream (JArr [JStr ''page2'']) False,
          Request (JStr ''http://site/3''),
          Stream (JArr [JStr ''page3'']) True,
          Report (Inr (JArr [JStr ''page1'', JStr ''page2'', JStr ''page3'']))]) \<and>
   two_items (JArr [JStr ''page1'', JStr ''page2'']) (JStr ''http://site/3'')"
  by (simp add: site_defs run_defs two_items_def leaf_array_strings custom_for_def)

text \<open>
  C5 (amended). In a call of \<open>next\<close> with pagination on that has not reached the limit and
  has resolved the next URL, a configured abort predicate is called with the value of the
  current page and that URL; the call of \<open>next\<close> ends the run reporting the pages when the
  predicate holds, and requests the URL when it does not.
\<close>

theorem abort_predicate_arguments:
  assumes "paginate st = Some p" and "abort st = Some f"
    and "\<not> le_zero (decrement (limit st))"
    and "url = resolve E (SourceDoc d) (JBool False) (SStr p)" and "isUrl E url"
  shows "next_cb E st (Inr (obj, d)) =
           (st\<lparr>limit := decrement (limit st), pages := concat_pages (pages st) obj\<rparr>,
            (if f obj url
             then [AbortCall obj url, Stream obj True,
                   Report (Inr (JArr (concat_pages (pages st) obj)))]
             else [AbortCall obj url, Stream obj False]),
            (if f obj url then None else Some url))"
  using assms by (simp add: next_cb_def Let_def)

theorem abort_predicate_arguments_witness:
  "paginate \<lparr>paginate = Some ''a.next@href'', limit = Finite 3, abort = Some two_items,
      pages = [JStr ''page1'']\<rparr> = Some ''a.next@href'' \<and>
   abort \<lparr>paginate = Some ''a.next@href'', limit = Finite 3, abort = Some two_items,
      pages = [JStr ''page1'']\<rparr> = Some two_items \<and>
   \<not> le_zero (decrement (limit \<lparr>paginate = Some ''a.next@href'', limit = Finite 3,
      abort = Some two_items, pages = [JStr ''page1'']\<rparr>)) \<and>
   JStr ''http://site/3'' = resolve site (SourceDoc (Parsed ''page2'')) (JBool False) (SStr ''a.next@href'') \<and>
   isUrl site (JStr ''http://site/3'') \<and>
   next_cb site \<lparr>paginate = Some ''a.next@href'', limit = Finite 3, abort = Some two_items,
      pages = [JStr ''page1'']\<rparr> (Inr (JArr [JStr ''page2'', JStr ''more''], Parsed ''page2'')) =
     (\<lparr>paginate = Some ''a.next@href'', limit = Finite 2, abort = Some two_items,
        pages = [JStr ''page1'', JStr ''page2'', JStr ''more'']\<rparr>,
      [AbortCall (JArr [JStr ''page2'', JStr ''more'']) (JStr ''http://site/3''),
       Stream (JArr [JStr ''page2'', JStr ''more'']) True,
       Report (Inr (JArr [JStr ''page1'', JStr ''page2'', JStr ''more'']))],
      None)"
  using abort_predicate_arguments [of
      "\<lparr>paginate = Some ''a.next@href'', limit = Finite 3, abort = Some two_items,
         pages = [JStr ''page1'']\<rparr>"
      "''a.next@href''" two_items "JStr ''http://site/3''" site "Parsed ''page2''"
      "JArr [JStr ''page2'', JStr ''more'']"]
  by (simp add: site_defs two_items_def)

lemma cycle_one_report:
  "cycle E wh fuel st sig = Some (st', evs) \<Longrightarrow> \<exists>r. reports evs = [r] \<and> last evs = Report r"
proof (induction fuel arbitrary: st sig st' evs)
  case 0
  then show ?case by simp
next
  case (Suc fuel)
  obtain st1 evs1 cont where step: "next_cb E st sig = (st1, evs1, cont)"
    by (cases "next_cb E st sig") auto
  show ?case
  proof (cases cont)
    case None
    with Suc.prems step have "st' = st1" "evs = evs1" by simp_all
    with next_cb_returns step None show ?thesis by blast
  next
    case (Some url)
    with Suc.prems step obtain st2 evs2 where
      rest: "cycle E wh fuel st1 (request E url wh) = Some (st2, evs2)"
      and evs: "evs = evs1 @ Request url # evs2"
      by (auto split: option.splits)
    from Suc.IH[OF rest] obtain r where r: "reports evs2 = [r]" "last evs2 = Report r" by blast
    then have "evs2 \<noteq> []" by auto
    moreover have "reports evs1 = []" using next_cb_requests step Some by blast
    ultimately show ?thesis using r evs by (simp add: reports_append)
  qed
qed

lemma cycle_terminates:
  "limit st = Finite n \<Longrightarrow> n \<le> int fuel \<Longrightarrow> \<exists>res. cycle E wh (Suc fuel) st sig = Some res"
proof (induction fuel arbitrary: st sig n)
  case 0
  obtain st1 evs1 cont where step: "next_cb E st sig = (st1, evs1, cont)"
    by (cases "next_cb E st sig") auto
  show ?case
  proof (cases cont)
    case None
    with step show ?thesis by simp
  next
    case (Some url)
    with next_cb_requests step have "\<not> le_zero (decrement (limit st))" by metis
    with 0 show ?thesis by simp
  qed
next
  case (Suc fuel)
  obtain st1 evs1 cont where step: "next_cb E st sig = (st1, evs1, cont)"
    by (cases "next_cb E st sig") auto
  show ?case
  proof (cases cont)
    case None
    with step show ?thesis by simp
  next
    case (Some url)
    with next_cb_requests step have l: "limit st1 = decrement (limit st)" by metis
    with Suc.prems have "limit st1 = Finite (n - 1)" "n - 1 \<le> int fuel" by simp_all
    from Suc.IH[OF this] obtain res where
      "cycle E wh (Suc fuel) st1 (request E url wh) = Some res" by blast
    with step Some show ?thesis by (cases res) simp
  qed
qed

text \<open>
  C1 (as stated). A second terminal signal from a racing branch would be dropped. It is
  not: \<open>next\<close> has no completion token. With limit 1, a fetch error and the walked value
  of the page handed to \<open>next\<close> one after the other are both reported to the result
  callback, the error first and the pages after it.
\<close>

theorem racing_signals_counterexample:
  "deliver site \<lparr>paginate = Some ''a.next@href'', limit = Finite 1, abort = None, pages = []\<rparr>
     [Inl (FetchError ''timeout''), Inr (JArr [JStr ''page1''], Parsed ''page1'')] =
   (\<lparr>paginate = Some ''a.next@href'', limit = Finite 0, abort = None, pages = [JStr ''page1'']\<rparr>,
    [Report (Inl (FetchError ''timeout'')),
     Stream (JArr [JStr ''page1'']) True,
     Report (Inr (JArr [JStr ''page1'']))])"
  by (simp add: next_cb_def Let_def)

text \<open>
  C1 (amended). In a pagination run in which every fetch and every walk calls \<open>next\<close> once,
  the result callback is called exactly once, as the last event of the run, whenever the
  run ends, and a run with a finite page limit \<open>n\<close> ends within \<open>n + 1\<close> calls of \<open>next\<close>.
  Each call of \<open>next\<close> reports at most once, and a call with an error reports the error
  alone, leaving the limit as it is. Nothing guards \<open>next\<close> against a second call.
\<close>

theorem report_once_per_signal:
  "(cycle E wh fuel st sig = Some (st', evs) \<longrightarrow> (\<exists>r. reports evs = [r] \<and> last evs = Report r)) \<and>
   (limit st = Finite n \<longrightarrow> (\<exists>res. cycle E wh (Suc (nat n)) st sig = Some res)) \<and>
   length (reports (fst (snd (next_cb E st sig)))) \<le> 1 \<and>
   next_cb E st (Inl err) = (st, [Report (Inl err)], None)"
proof (intro conjI impI)
  assume "cycle E wh fuel st sig = Some (st', evs)"
  then show "\<exists>r. reports evs = [r] \<and> last evs = Report r" by (rule cycle_one_report)
next
  assume "limit st = Finite n"
  then show "\<exists>res. cycle E wh (Suc (nat n)) st sig = Some res"
    by (rule cycle_terminates) simp
next
  obtain st1 evs1 cont where step: "next_cb E st sig = (st1, evs1, cont)"
    by (cases "next_cb E st sig") auto
  show "length (reports (fst (snd (next_cb E st sig)))) \<le> 1"
  proof (cases cont)
    case None
    with next_cb_returns step obtain r where "reports evs1 = [r]" by blast
    with step show ?thesis by simp
  next
    case (Some url)
    with next_cb_requests step have "reports evs1 = []" by blast
    with step show ?thesis by simp
  qed
next
  show "next_cb E st (Inl err) = (st, [Report (Inl err)], None)"
    by (simp add: next_cb_def)
qed

theorem report_once_per_signal_witness:
  "cycle site (walkHTML site False None (SArr [SStr ''h1''])) (Suc (Suc 0))
     \<lparr>paginate = Some ''a.next@href'', limit = Finite 2, abort = None, pages = []\<rparr>
     (Inr (JArr [JStr ''page1''], Parsed ''page1'')) =
   Some (\<lparr>paginate = Some ''a.next@href'', limit = Finite 0, abort = None,
           pages = [JStr ''page1'', JStr ''page2'']\<rparr>,
         [Stream (JArr [JStr ''page1'']) False, Request (JStr ''http://site/2''),
          Stream (JArr [JStr ''page2'']) True,
          Report (Inr (JArr [JStr ''page1'', JStr ''page2'']))]) \<and>
   reports [Stream (JArr [JStr ''page1'']) False, Request (JStr ''http://site/2''),
          Stream (JArr [JStr ''page2'']) True,
          Report (Inr (JArr [JStr ''page1'', JStr ''page2'']))] =
     [Inr (JArr [JStr ''page1'', JStr ''page2''])] \<and>
   limit \<lparr>paginate = Some ''a.next@href'', limit = Finite 2, abort = None, pages = []\<rparr> = Finite 2 \<and>
   cycle site (walkHTML site False None (SArr [SStr ''h1''])) (Suc (nat 2))
     \<lparr>paginate = Some ''a.next@href'', limit = Finite 2, abort = None, pages = []\<rparr>
     (Inr (JArr [JStr ''page1''], Parsed ''page1'')) \<noteq> None"
  using report_once_per_signal [of site "walkHTML site False None (SArr [SStr ''h1''])" "Suc (Suc 0)"
      "\<lparr>paginate = Some ''a.next@href'', limit = Finite 2, abort = None, pages = []\<rparr>"
      "Inr (JArr [JStr ''page1''], Parsed ''page1'')"
      "\<lparr>paginate = Some ''a.next@href'', limit = Finite 0, abort = None,
           pages = [JStr ''page1'', JStr ''page2'']\<rparr>"
      "[Stream (JArr [JStr ''page1'']) False, Request (JStr ''http://site/2''),
          Stream (JArr [JStr ''page2'']) True,
          Report (Inr (JArr [JStr ''page1'', JStr ''page2'']))]" 2]
  by (auto simp add: site_defs run_defs leaf_array_strings custom_for_def)

text \<open>
  C3. A run with limit 3 whose abort predicate holds when it is called on page 2: page 1
  has been walked (\<open>obj1\<close>, \<open>d1\<close>), its next URL \<open>u2\<close> resolves and the predicate does not
  hold there; the request of \<open>u2\<close> gives page 2 (\<open>obj2\<close>, \<open>d2\<close>), whose next URL \<open>u3\<close>
  resolves and where the predicate holds. Then the run ends after exactly two pages: the
  only request is that of \<open>u2\<close>, \<open>u3\<close> is never requested, and the value reported is the
  accumulation of pages 1 and 2. The limit counts pages: every walked page takes one off
  the limit, whatever the number of its items; a call of \<open>next\<close> with a limit of one or
  less ends the run whatever the next URL and the abort predicate; and where every page
  has a next URL, every fetch and walk succeeds and there is no abort predicate, a run
  with the limit \<open>m + 1\<close> walks exactly \<open>m + 1\<close> pages, makes \<open>m\<close> requests and reports the
  pages. With the limit \<open>Infinity\<close> a call of \<open>next\<close> ends a paginating run only when the
  next URL does not resolve or the abort predicate holds.
\<close>

theorem limit_three_abort_on_page_two:
  "(paginate st = Some p \<and> limit st = Finite 3 \<and> abort st = Some f \<and> pages st = [] \<and>
    resolve E (SourceDoc d1) (JBool False) (SStr p) = u2 \<and> isUrl E u2 \<and> \<not> f obj1 u2 \<and>
    request E u2 wh = Inr (obj2, d2) \<and>
    resolve E (SourceDoc d2) (JBool False) (SStr p) = u3 \<and> isUrl E u3 \<and> f obj2 u3 \<longrightarrow>
      cycle E wh (Suc (Suc fuel)) st (Inr (obj1, d1)) =
        Some (st\<lparr>limit := Finite 1, pages := concat_pages (concat_pages [] obj1) obj2\<rparr>,
              [AbortCall obj1 u2, Stream obj1 False, Request u2,
               AbortCall obj2 u3, Stream obj2 True,
               Report (Inr (JArr (concat_pages (concat_pages [] obj1) obj2)))])) \<and>
   limit (fst (next_cb E st0 (Inr (obj, d)))) = decrement (limit st0) \<and>
   (limit st0 = Infinity \<and> paginate st0 = Some p0 \<and>
    next_cb E st0 (Inr (obj, d)) = (st0', evs0, None) \<longrightarrow>
      \<not> isUrl E (resolve E (SourceDoc d) (JBool False) (SStr p0)) \<or>
      (\<exists>g. abort st0 = Some g \<and> g obj (resolve E (SourceDoc d) (JBool False) (SStr p0)))) \<and>
   (paginate st0 = Some p0 \<and> limit st0 = Finite n \<and> n \<le> 1 \<longrightarrow>
      next_cb E st0 (Inr (obj, d)) =
        (st0\<lparr>limit := Finite (n - 1), pages := concat_pages (pages st0) obj\<rparr>,
         [Stream obj True, Report (Inr (JArr (concat_pages (pages st0) obj)))], None)) \<and>
   (paginate st0 = Some p0 \<and> abort st0 = None \<and> limit st0 = Finite (int (Suc m)) \<and>
    (\<forall>d'. isUrl E (resolve E (SourceDoc d') (JBool False) (SStr p0))) \<and>
    (\<forall>url. \<exists>obj' d'. request E url wh = Inr (obj', d')) \<longrightarrow>
      (\<exists>st' evs. cycle E wh (Suc m + k) st0 (Inr (obj, d)) = Some (st', evs) \<and>
         length (walked evs) = Suc m \<and> length (requests evs) = m \<and>
         reports evs = [Inr (JArr (pages st'))] \<and> limit st' = Finite 0))"
proof (intro conjI impI)
  assume "paginate st = Some p \<and> limit st = Finite 3 \<and> abort st = Some f \<and> pages st = [] \<and>
    resolve E (SourceDoc d1) (JBool False) (SStr p) = u2 \<and> isUrl E u2 \<and> \<not> f obj1 u2 \<and>
    request E u2 wh = Inr (obj2, d2) \<and>
    resolve E (SourceDoc d2) (JBool False) (SStr p) = u3 \<and> isUrl E u3 \<and> f obj2 u3"
  then show "cycle E wh (Suc (Suc fuel)) st (Inr (obj1, d1)) =
        Some (st\<lparr>limit := Finite 1, pages := concat_pages (concat_pages [] obj1) obj2\<rparr>,
              [AbortCall obj1 u2, Stream obj1 False, Request u2,
               AbortCall obj2 u3, Stream obj2 True,
               Report (Inr (JArr (concat_pages (concat_pages [] obj1) obj2)))])"
    by (simp add: next_cb_def Let_def)
next
  show "limit (fst (next_cb E st0 (Inr (obj, d)))) = decrement (limit st0)"
    by (rule next_cb_limit)
next
  assume "limit st0 = Infinity \<and> paginate st0 = Some p0 \<and>
          next_cb E st0 (Inr (obj, d)) = (st0', evs0, None)"
  then show "\<not> isUrl E (resolve E (SourceDoc d) (JBool False) (SStr p0)) \<or>
            (\<exists>g. abort st0 = Some g \<and> g obj (resolve E (SourceDoc d) (JBool False) (SStr p0)))"
    using next_cb_unbounded by blast
next
  assume "paginate st0 = Some p0 \<and> limit st0 = Finite n \<and> n \<le> 1"
  then show "next_cb E st0 (Inr (obj, d)) =
        (st0\<lparr>limit := Finite (n - 1), pages := concat_pages (pages st0) obj\<rparr>,
         [Stream obj True, Report (Inr (JArr (concat_pages (pages st0) obj)))], None)"
    using next_cb_at_limit by blast
next
  assume "paginate st0 = Some p0 \<and> abort st0 = None \<and> limit st0 = Finite (int (Suc m)) \<and>
    (\<forall>d'. isUrl E (resolve E (SourceDoc d') (JBool False) (SStr p0))) \<and>
    (\<forall>url. \<exists>obj' d'. request E url wh = Inr (obj', d'))"
  then show "\<exists>st' evs. cycle E wh (Suc m + k) st0 (Inr (obj, d)) = Some (st', evs) \<and>
         length (walked evs) = Suc m \<and> length (requests evs) = m \<and>
         reports evs = [Inr (JArr (pages st'))] \<and> limit st' = Finite 0"
    using cycle_counts_pages[of E p0 wh st0 m k obj d] by blast
qed

theorem limit_three_abort_on_page_two_witness:
  "paginate \<lparr>paginate = Some ''a.next@href'', limit = Finite 3, abort = Some before_third, pages = []\<rparr>
     = Some ''a.next@href'' \<and>
   resolve site (SourceDoc (Parsed ''page1'')) (JBool False) (SStr ''a.next@href'') = JStr ''http://site/2'' \<and>
   isUrl site (JStr ''http://site/2'') \<and>
   \<not> before_third (JArr [JStr ''page1'']) (JStr ''http://site/2'') \<and>
   request site (JStr ''http://site/2'') (walkHTML site False None (SArr [SStr ''h1''])) =
     Inr (JArr [JStr ''page2''], Absolutes (JStr ''http://site/2'') (Parsed ''page2'')) \<and>
   resolve site (SourceDoc (Absolutes (JStr ''http://site/2'') (Parsed ''page2''))) (JBool False)
     (SStr ''a.next@href'') = JStr ''http://site/3'' \<and>
   isUrl site (JStr ''http://site/3'') \<and>
   before_third (JArr [JStr ''page2'']) (JStr ''http://site/3'') \<and>
   cycle site (walkHTML site False None (SArr [SStr ''h1''])) (Suc (Suc 0))
     \<lparr>paginate = Some ''a.next@href'', limit = Finite 3, abort = Some before_third, pages = []\<rparr>
     (Inr (JArr [JStr ''page1''], Parsed ''page1'')) =
   Some (\<lparr>paginate = Some ''a.next@href'', limit = Finite 1, abort = Some before_third,
           pages = [JStr ''page1'', JStr ''page2'']\<rparr>,
         [AbortCall (JArr [JStr ''page1'']) (JStr ''http://site/2''),
          Stream (JArr [JStr ''page1'']) False,
          Request (JStr ''http://site/2''),
          AbortCall (JArr [JStr ''page2'']) (JStr ''http://site/3''),
          Stream (JArr [JStr ''page2'']) True,
          Report (Inr (JArr [JStr ''page1'', JStr ''page2'']))]) \<and>
   limit (INIT_STATE\<lparr>paginate := Some ''a.next@href''\<rparr>) = Infinity \<and>
   next_cb site (INIT_STATE\<lparr>paginate := Some ''a.next@href''\<rparr>)
     (Inr (JArr [JStr ''page3''], Parsed ''page3'')) =
     (\<lparr>paginate = Some ''a.next@href'', limit = Infinity, abort = None, pages = [JStr ''page3'']\<rparr>,
      [Stream (JArr [JStr ''page3'']) True, Report (Inr (JArr [JStr ''page3'']))], None) \<and>
   \<not> isUrl site (resolve site (SourceDoc (Parsed ''page3'')) (JBool False) (SStr ''a.next@href'')) \<and>
   isUrl site (resolve site (SourceDoc (Parsed ''page1'')) (JBool False) (SStr ''a.next@href'')) \<and>
   next_cb site \<lparr>paginate = Some ''a.next@href'', limit = Finite 1, abort = None, pages = []\<rparr>
     (Inr (JArr [JStr ''page1'', JStr ''more''], Parsed ''page1'')) =
     (\<lparr>paginate = Some ''a.next@href'', limit = Finite 0, abort = None,
        pages = [JStr ''page1'', JStr ''more'']\<rparr>,
      [Stream (JArr [JStr ''page1'', JStr ''more'']) True,
       Report (Inr (JArr [JStr ''page1'', JStr ''more'']))], None) \<and>
   (\<forall>d'. isUrl endless (resolve endless (SourceDoc d') (JBool False) (SStr ''a.next@href''))) \<and>
   (\<forall>url. \<exists>obj' d'. request endless url (walkHTML endless False None (SStr ''h1'')) = Inr (obj', d')) \<and>
   cycle endless (walkHTML endless False None (SStr ''h1'')) (Suc (Suc 0))
     \<lparr>paginate = Some ''a.next@href'', limit = Finite 2, abort = None, pages = []\<rparr>
     (Inr (JArr [JStr ''first'', JStr ''second'', JStr ''third''], Parsed ''page1'')) =
   Some (\<lparr>paginate = Some ''a.next@href'', limit = Finite 0, abort = None,
           pages = [JStr ''first'', JStr ''second'', JStr ''third'', JStr ''http://site/1'']\<rparr>,
         [Stream (JArr [JStr ''first'', JStr ''second'', JStr ''third'']) False,
          Request (JStr ''http://site/1''),
          Stream (JStr ''http://site/1'') True,
          Report (Inr (JArr [JStr ''first'', JStr ''second'', JStr ''third'', JStr ''http://site/1'']))]) \<and>
   length (walked [Stream (JArr [JStr ''first'', JStr ''second'', JStr ''third'']) False,
          Request (JStr ''http://site/1''),
          Stream (JStr ''http://site/1'') True,
          Report (Inr (JArr [JStr ''first'', JStr ''second'', JStr ''third'', JStr ''http://site/1'']))]) = Suc (Suc 0) \<and>
   length (requests [Stream (JArr [JStr ''first'', JStr ''second'', JStr ''third'']) False,
          Request (JStr ''http://site/1''),
          Stream (JStr ''http://site/1'') True,
          Report (Inr (JArr [JStr ''first'', JStr ''second'', JStr ''third'', JStr ''http://site/1'']))]) = Suc 0"
proof -
  note a = limit_three_abort_on_page_two [where
      st = "\<lparr>paginate = Some ''a.next@href'', limit = Finite 3, abort = Some before_third, pages = []\<rparr>"
      and p = "''a.next@href''" and f = before_third and E = site and ?d1.0 = "Parsed ''page1''"
      and ?u2.0 = "JStr ''http://site/2''" and ?obj1.0 = "JArr [JStr ''page1'']"
      and wh = "walkHTML site False None (SArr [SStr ''h1''])"
      and ?obj2.0 = "JArr [JStr ''page2'']"
      and ?d2.0 = "Absolutes (JStr ''http://site/2'') (Parsed ''page2'')"
      and ?u3.0 = "JStr ''http://site/3''" and fuel = 0
      and ?st0.0 = "INIT_STATE\<lparr>paginate := Some ''a.next@href''\<rparr>"
      and obj = "JArr [JStr ''page3'']" and d = "Parsed ''page3''" and ?p0.0 = "''a.next@href''"
      and ?st0' = "\<lparr>paginate = Some ''a.next@href'', limit = Infinity, abort = None, pages = [JStr ''page3'']\<rparr>"
      and ?evs0.0 = "[Stream (JArr [JStr ''page3'']) True, Report (Inr (JArr [JStr ''page3'']))]"]
  note b = limit_three_abort_on_page_two [where E = site
      and ?st0.0 = "\<lparr>paginate = Some ''a.next@href'', limit = Finite 1, abort = None, pages = []\<rparr>"
      and ?p0.0 = "''a.next@href''" and n = 1
      and obj = "JArr [JStr ''page1'', JStr ''more'']" and d = "Parsed ''page1''"]
  note c = limit_three_abort_on_page_two [where E = endless
      and wh = "walkHTML endless False None (SStr ''h1'')"
      and ?st0.0 = "\<lparr>paginate = Some ''a.next@href'', limit = Finite 2, abort = None, pages = []\<rparr>"
      and ?p0.0 = "''a.next@href''" and m = "Suc 0" and k = 0
      and obj = "JArr [JStr ''first'', JStr ''second'', JStr ''third'']" and d = "Parsed ''page1''"]
  have e1: "\<forall>d'. isUrl endless (resolve endless (SourceDoc d') (JBool False) (SStr ''a.next@href''))"
    by (simp add: endless_def site_def site_isUrl_def)
  have e2: "\<forall>url. \<exists>obj' d'. request endless url (walkHTML endless False None (SStr ''h1'')) = Inr (obj', d')"
    by (simp add: endless_request)
  have e3: "cycle endless (walkHTML endless False None (SStr ''h1'')) (Suc (Suc 0))
     \<lparr>paginate = Some ''a.next@href'', limit = Finite 2, abort = None, pages = []\<rparr>
     (Inr (JArr [JStr ''first'', JStr ''second'', JStr ''third''], Parsed ''page1'')) =
   Some (\<lparr>paginate = Some ''a.next@href'', limit = Finite 0, abort = None,
           pages = [JStr ''first'', JStr ''second'', JStr ''third'', JStr ''http://site/1'']\<rparr>,
         [Stream (JArr [JStr ''first'', JStr ''second'', JStr ''third'']) False,
          Request (JStr ''http://site/1''),
          Stream (JStr ''http://site/1'') True,
          Report (Inr (JArr [JStr ''first'', JStr ''second'', JStr ''third'', JStr ''http://site/1'']))])"
    by (simp add: endless_request next_cb_def Let_def) (simp add: endless_def site_def site_isUrl_def)
  show ?thesis
    using a b c e1 e2 e3
    by (simp add: site_defs run_defs before_third_def leaf_array_strings custom_for_def)
qed

section \<open>The collector of an array of objects\<close>

text \<open>
  For the proofs: \<open>slot xs j\<close> is the element of the array \<open>xs\<close> at index \<open>j\<close>, a hole or
  an index beyond the end being \<open>None\<close>; \<open>collected E objs seen\<close> is the collector once the
  inner nodes of the indices \<open>seen\<close> have completed with the values \<open>objs\<close>.
\<close>

definition slot :: "jsval option list \<Rightarrow> nat \<Rightarrow> jsval option" where
  "slot xs j = (if j < length xs then xs ! j else None)"

lemma slot_Nil [simp]: "slot [] j = None"
  by (simp add: slot_def)

lemma slot_Cons: "slot (x # xs) j = (case j of 0 \<Rightarrow> x | Suc j' \<Rightarrow> slot xs j')"
  by (cases j) (simp_all add: slot_def)

lemma length_js_set: "length (js_set xs i v) = max (length xs) (Suc i)"
  by (induction xs i v rule: js_set.induct) simp_all

lemma slot_js_set: "slot (js_set xs i v) j = (if j = i then Some v else slot xs j)"
proof (induction xs i v arbitrary: j rule: js_set.induct)
  case (1 v)
  then show ?case by (cases j) (simp_all add: slot_Cons)
next
  case (2 i v)
  then show ?case by (cases j) (simp_all add: slot_Cons)
next
  case (3 x xs v)
  then show ?case by (cases j) (simp_all add: slot_Cons)
next
  case (4 x xs i v)
  then show ?case by (cases j) (simp_all add: slot_Cons)
qed

lemma full_slots:
  assumes "length xs \<le> length objs" and "\<forall>j < length objs. slot xs j = Some (objs ! j)"
  shows "xs = map Some objs"
proof (cases "objs = []")
  case True
  with assms show ?thesis by simp
next
  case False
  then have "slot xs (length objs - 1) = Some (objs ! (length objs - 1))"
    using assms(2) by simp
  then have "length objs - 1 < length xs"
    by (auto simp: slot_def split: if_splits)
  with assms(1) False have len: "length xs = length objs" by simp
  show ?thesis
  proof (rule nth_equalityI)
    show "length xs = length (map Some objs)" using len by simp
  next
    fix i assume "i < length xs"
    then show "xs ! i = map Some objs ! i"
      using assms(2) len by (auto simp: slot_def split: if_splits)
  qed
qed

lemma compact_present: "compact E (map Some objs) = filter (compact_keep E) objs"
  by (simp add: compact_def List.map_filter_def comp_def)

definition collected :: "env \<Rightarrow> jsval list \<Rightarrow> nat list \<Rightarrow> collector" where
  "collected E objs seen =
     foldl (each_cb E) \<lparr>pending = int (length objs), out = [], signals = []\<rparr>
       (map (\<lambda>i. (i, map Inr objs ! i)) seen)"

lemma distinct_bounded_length:
  assumes "distinct xs" and "set xs \<subseteq> {..<n}"
  shows "length xs \<le> n"
proof -
  have "length xs = card (set xs)" using assms(1) by (simp add: distinct_card)
  also have "\<dots> \<le> card {..<n}" using assms(2) by (intro card_mono) simp_all
  finally show ?thesis by simp
qed

lemma collected_invariant:
  assumes "distinct seen" and "set seen \<subseteq> {..<length objs}"
  shows "pending (collected E objs seen) = int (length objs) - int (length seen) \<and>
         (\<forall>j. slot (out (collected E objs seen)) j = (if j \<in> set seen then Some (objs ! j) else None)) \<and>
         length (out (collected E objs seen)) \<le> length objs \<and>
         signals (collected E objs seen) =
           (if seen \<noteq> [] \<and> length seen = length objs
            then [Inr (JArr (compact E (out (collected E objs seen))))] else [])"
  using assms
proof (induction seen rule: rev_induct)
  case Nil
  then show ?case by (simp add: collected_def)
next
  case (snoc i seen)
  then have d: "distinct seen" "set seen \<subseteq> {..<length objs}" and i: "i \<notin> set seen" "i < length objs"
    by auto
  let ?c = "collected E objs seen"
  from snoc.IH[OF d] have
    p: "pending ?c = int (length objs) - int (length seen)" and
    s: "\<forall>j. slot (out ?c) j = (if j \<in> set seen then Some (objs ! j) else None)" and
    l: "length (out ?c) \<le> length objs" and
    g: "signals ?c = (if seen \<noteq> [] \<and> length seen = length objs
            then [Inr (JArr (compact E (out ?c)))] else [])"
    by blast+
  have "length (seen @ [i]) \<le> length objs"
    using snoc.prems by (intro distinct_bounded_length) auto
  then have short: "length seen < length objs" by simp
  have step: "collected E objs (seen @ [i]) = each_cb E ?c (i, Inr (objs ! i))"
    using i by (simp add: collected_def)
  have g0: "signals ?c = []" using g short by simp
  show ?case
    unfolding step
    using p s l g0 i short
    by (auto simp: each_cb_def Let_def slot_js_set length_js_set)
qed

lemma each_scope_any_order:
  assumes "objs \<noteq> []" and "distinct order" and "set order = {..<length objs}"
  shows "each_scope E order (map Inr objs) = [Inr (JArr (filter (compact_keep E) objs))]"
proof -
  let ?c = "collected E objs order"
  have sub: "set order \<subseteq> {..<length objs}" using assms(3) by simp
  have "length order = card (set order)" using assms(2) by (simp add: distinct_card)
  then have len: "length order = length objs" using assms(3) by simp
  then have ne: "order \<noteq> []" using assms(1) by auto
  from collected_invariant[OF assms(2) sub, of E] have
    s: "\<forall>j. slot (out ?c) j = (if j \<in> set order then Some (objs ! j) else None)" and
    l: "length (out ?c) \<le> length objs" and
    g: "signals ?c = [Inr (JArr (compact E (out ?c)))]"
    using len ne by auto
  have "out ?c = map Some objs"
    using l s assms(3) by (intro full_slots) auto
  then have "signals ?c = [Inr (JArr (filter (compact_keep E) objs))]"
    using g by (simp add: compact_present)
  then show ?thesis
    using assms(1) by (simp add: each_scope_def collected_def)
qed

text \<open>In document order the collector always calls \<open>next\<close>, so the callback of \<open>walkHTML\<close>
  has a first call to pass on.\<close>

lemma each_cb_signals: "\<exists>more. signals (each_cb E c ir) = signals c @ more"
  by (cases ir; cases "snd ir") (auto simp: each_cb_def Let_def)

lemma foldl_each_cb_signals: "\<exists>more. signals (foldl (each_cb E) c irs) = signals c @ more"
proof (induction irs arbitrary: c)
  case Nil
  then show ?case by simp
next
  case (Cons ir irs)
  from each_cb_signals obtain m1 where "signals (each_cb E c ir) = signals c @ m1" by blast
  moreover from Cons.IH obtain m2 where
    "signals (foldl (each_cb E) (each_cb E c ir) irs) = signals (each_cb E c ir) @ m2" by blast
  ultimately show ?case by simp
qed

lemma foldl_each_cb_error:
  "(i, Inl err) \<in> set irs \<Longrightarrow> signals (foldl (each_cb E) c irs) \<noteq> []"
proof (induction irs arbitrary: c)
  case Nil
  then show ?case by simp
next
  case (Cons ir irs)
  show ?case
  proof (cases "ir = (i, Inl err)")
    case True
    then have "signals (each_cb E c ir) \<noteq> []" by (simp add: each_cb_def)
    moreover from foldl_each_cb_signals obtain more where
      "signals (foldl (each_cb E) (each_cb E c ir) irs) = signals (each_cb E c ir) @ more" by blast
    ultimately show ?thesis by simp
  next
    case False
    with Cons.prems have "(i, Inl err) \<in> set irs" by simp
    then show ?thesis using Cons.IH by simp
  qed
qed

lemma each_scope_calls_next: "each_scope E [0..<length results] results \<noteq> []"
proof (cases "\<exists>i err. i < length results \<and> results ! i = Inl err")
  case True
  then obtain i err where i: "i < length results" "results ! i = Inl err" by blast
  then have "(i, Inl err) \<in> set (map (\<lambda>i. (i, results ! i)) [0..<length results])"
    by (auto simp: image_iff)
  then show ?thesis using i by (auto simp: each_scope_def foldl_each_cb_error)
next
  case False
  then have "\<forall>r \<in> set results. \<exists>obj. r = Inr obj"
    by (metis in_set_conv_nth old.sum.exhaust)
  then have "results = map Inr (map projr results)"
    by (induction results) auto
  then obtain objs where objs: "results = map Inr objs" by blast
  show ?thesis
  proof (cases "objs = []")
    case True
    with objs show ?thesis by (simp add: each_scope_def)
  next
    case False
    have "each_scope E [0..<length objs] (map Inr objs) = [Inr (JArr (filter (compact_keep E) objs))]"
      using False by (intro each_scope_any_order) auto
    with objs show ?thesis by simp
  qed
qed

text \<open>
  C7. An array selector whose first element is an object. With no element in scope,
  \<open>next\<close> is called once with the empty list and no error, whatever the rest. With \<open>n\<close>
  elements whose walks give the values \<open>objs\<close> (in document order), the inner nodes may
  complete in any order (\<open>order\<close> is any arrangement of the indices): \<open>next\<close> is called once,
  with the values in document order (those \<open>compact\<close> keeps), since each value is stored
  at the index of its element. The callback of \<open>walkHTML\<close> passes this list on.
\<close>

theorem sequence_in_document_order:
  "each_scope E order [] = [Inr (JArr [])] \<and>
   (objs \<noteq> [] \<and> distinct order \<and> set order = {..<length objs} \<longrightarrow>
      each_scope E order (map Inr objs) = [Inr (JArr (filter (compact_keep E) objs))]) \<and>
   (custom_for E (SArr (v0 # vs)) = None \<and> typeof v0 = ''object'' \<and> query E d scope = [] \<longrightarrow>
      leaf E strictMode scope sub d (SArr (v0 # vs)) k = Inr (JArr [])) \<and>
   (custom_for E (SArr (v0 # vs)) = None \<and> typeof v0 = ''object'' \<and>
    map (\<lambda>innerscope. sub innerscope v0) (query E d scope) = map Inr objs \<longrightarrow>
      leaf E strictMode scope sub d (SArr (v0 # vs)) k = Inr (JArr (filter (compact_keep E) objs)))"
proof (intro conjI impI)
  show "each_scope E order [] = [Inr (JArr [])]"
    by (simp add: each_scope_def)
next
  assume "objs \<noteq> [] \<and> distinct order \<and> set order = {..<length objs}"
  then show "each_scope E order (map Inr objs) = [Inr (JArr (filter (compact_keep E) objs))]"
    by (simp add: each_scope_any_order)
next
  assume "custom_for E (SArr (v0 # vs)) = None \<and> typeof v0 = ''object'' \<and> query E d scope = []"
  then show "leaf E strictMode scope sub d (SArr (v0 # vs)) k = Inr (JArr [])"
    by (simp add: leaf_array_objects each_scope_def)
next
  assume a: "custom_for E (SArr (v0 # vs)) = None \<and> typeof v0 = ''object'' \<and>
    map (\<lambda>innerscope. sub innerscope v0) (query E d scope) = map Inr objs"
  then have len: "length (query E d scope) = length objs"
    by (metis length_map)
  have "each_scope E [0..<length objs] (map Inr objs) = [Inr (JArr (filter (compact_keep E) objs))]"
  proof (cases "objs = []")
    case True
    then show ?thesis by (simp add: each_scope_def)
  next
    case False
    then show ?thesis by (intro each_scope_any_order) auto
  qed
  then show "leaf E strictMode scope sub d (SArr (v0 # vs)) k =
      Inr (JArr (filter (compact_keep E) objs))"
    using a len by (simp add: leaf_array_objects)
qed

theorem sequence_in_document_order_witness:
  "[JObj [(''title'', JStr ''first'')], JObj [(''title'', JStr ''second'')]] \<noteq> [] \<and>
   distinct [Suc 0, 0] \<and>
   set [Suc 0, 0] = {..<length [JObj [(''title'', JStr ''first'')], JObj [(''title'', JStr ''second'')]]} \<and>
   each_scope site [Suc 0, 0]
     (map Inr [JObj [(''title'', JStr ''first'')], JObj [(''title'', JStr ''second'')]]) =
     [Inr (JArr [JObj [(''title'', JStr ''first'')], JObj [(''title'', JStr ''second'')]])] \<and>
   custom_for site (SArr [SObj CObject [(''title'', SStr ''h1'')]]) = None \<and>
   typeof (SObj CObject [(''title'', SStr ''h1'')]) = ''object'' \<and>
   query site (Parsed ''page2'') (Some ''li'') = [] \<and>
   leaf site False (Some ''li'')
     (\<lambda>innerscope v0. sub_node site (Some ''li'') (walkHTML site False (Some ''li'') v0) innerscope)
     (Parsed ''page2'') (SArr [SObj CObject [(''title'', SStr ''h1'')]]) None = Inr (JArr []) \<and>
   map (\<lambda>innerscope. sub_node site (Some ''li'')
          (walkHTML site False (Some ''li'') (SObj CObject [(''title'', SStr ''h1'')])) innerscope)
     (query site (Parsed ''page1'') (Some ''li'')) =
     map Inr [JObj [(''title'', JStr ''first'')], JObj [(''title'', JStr ''second'')]] \<and>
   leaf site False (Some ''li'')
     (\<lambda>innerscope v0. sub_node site (Some ''li'') (walkHTML site False (Some ''li'') v0) innerscope)
     (Parsed ''page1'') (SArr [SObj CObject [(''title'', SStr ''h1'')]]) None =
     Inr (JArr [JObj [(''title'', JStr ''first'')], JObj [(''title'', JStr ''second'')]])"
proof -
  have q: "map (\<lambda>innerscope. sub_node site (Some ''li'')
          (walkHTML site False (Some ''li'') (SObj CObject [(''title'', SStr ''h1'')])) innerscope)
     (query site (Parsed ''page1'') (Some ''li'')) =
     map Inr [JObj [(''title'', JStr ''first'')], JObj [(''title'', JStr ''second'')]]"
    by (simp add: site_defs run_defs sub_node_def)
  have s: "set [Suc 0, 0] = {..<length [JObj [(''title'', JStr ''first'')], JObj [(''title'', JStr ''second'')]]}"
    by auto
  have c: "custom_for site (SArr [SObj CObject [(''title'', SStr ''h1'')]]) = None"
    by (simp add: custom_for_def site_def)
  have e: "query site (Parsed ''page2'') (Some ''li'') = []"
    by (simp add: site_def)
  have k: "filter (compact_keep site) [JObj [(''title'', JStr ''first'')], JObj [(''title'', JStr ''second'')]] =
      [JObj [(''title'', JStr ''first'')], JObj [(''title'', JStr ''second'')]]"
    by (simp add: site_def)
  note w1 = sequence_in_document_order [where E = site and order = "[Suc 0, 0]"
      and objs = "[JObj [(''title'', JStr ''first'')], JObj [(''title'', JStr ''second'')]]"
      and ?v0.0 = "SObj CObject [(''title'', SStr ''h1'')]" and vs = "[]"
      and d = "Parsed ''page2''" and scope = "Some ''li''" and strictMode = False
      and sub = "\<lambda>innerscope v0. sub_node site (Some ''li'') (walkHTML site False (Some ''li'') v0) innerscope"
      and k = None]
  note w2 = sequence_in_document_order [where E = site and order = "[Suc 0, 0]"
      and objs = "[JObj [(''title'', JStr ''first'')], JObj [(''title'', JStr ''second'')]]"
      and ?v0.0 = "SObj CObject [(''title'', SStr ''h1'')]" and vs = "[]"
      and d = "Parsed ''page1''" and scope = "Some ''li''" and strictMode = False
      and sub = "\<lambda>innerscope v0. sub_node site (Some ''li'') (walkHTML site False (Some ''li'') v0) innerscope"
      and k = None]
  show ?thesis
    using w1 w2 q s c e k by simp
qed

text \<open>
  C9. \<open>walk\<close> walks the properties of a value only when the value is a plain object, an
  object whose constructor is \<open>Object\<close> or undefined; the result is then assembled from the
  walks of its properties. Every other value is handed unchanged, with its key, to the
  callback: a regular expression, a function, an array, an instance of a class. So the
  callback of \<open>walkHTML\<close> receives a custom-type marker itself and passes it to the
  handler of the custom type that accepts it.
\<close>

theorem walk_recurses_into_plain_objects_only:
  "(isPlainObject v \<longrightarrow> (\<exists>c ps. v = SObj c ps \<and> (c = CObject \<or> c = CUndefined))) \<and>
   (\<not> isPlainObject v \<longrightarrow> walk fn v key = fn v key) \<and>
   (isPlainObject (SObj c ps) \<longrightarrow>
      walk fn (SObj c ps) key =
        (case walk_keys fn ps [] of Inl err \<Rightarrow> Inl err | Inr res \<Rightarrow> Inr (JObj res))) \<and>
   walk fn (SRegExp r) key = fn (SRegExp r) key \<and>
   walk fn (SFun f) key = fn (SFun f) key \<and>
   walk fn (SArr vs) key = fn (SArr vs) key \<and>
   walk fn (SObj (CClass n) ps) key = fn (SObj (CClass n) ps) key \<and>
   (custom_for E (SObj (CClass n) ps) = Some typeConfig \<longrightarrow>
      walk (callback E strictMode scope d) (SObj (CClass n) ps) key =
        handler typeConfig (SObj (CClass n) ps) d scope)"
proof (intro conjI impI)
  assume "isPlainObject v"
  then show "\<exists>c ps. v = SObj c ps \<and> (c = CObject \<or> c = CUndefined)"
    by (cases v) simp_all
next
  assume "custom_for E (SObj (CClass n) ps) = Some typeConfig"
  then show "walk (callback E strictMode scope d) (SObj (CClass n) ps) key =
        handler typeConfig (SObj (CClass n) ps) d scope"
    by (simp add: walk_leaf callback_def leaf_custom)
qed (simp_all add: walk_leaf walk_plain)

theorem walk_recurses_into_plain_objects_only_witness:
  "isPlainObject (SObj CObject [(''count'', SObj (CClass ''NumberType'') [(''selector'', SStr ''h1'')])]) \<and>
   \<not> isPlainObject (SObj (CClass ''NumberType'') [(''selector'', SStr ''h1'')]) \<and>
   walk (callback (site\<lparr>customTypes := [number_type]\<rparr>) False None (Parsed ''page1''))
     (SObj (CClass ''NumberType'') [(''selector'', SStr ''h1'')]) (Some ''count'') =
     callback (site\<lparr>customTypes := [number_type]\<rparr>) False None (Parsed ''page1'')
       (SObj (CClass ''NumberType'') [(''selector'', SStr ''h1'')]) (Some ''count'') \<and>
   custom_for (site\<lparr>customTypes := [number_type]\<rparr>)
     (SObj (CClass ''NumberType'') [(''selector'', SStr ''h1'')]) = Some number_type \<and>
   walk (callback (site\<lparr>customTypes := [number_type]\<rparr>) False None (Parsed ''page1''))
     (SObj (CClass ''NumberType'') [(''selector'', SStr ''h1'')]) (Some ''count'') = Inr (JNum 42) \<and>
   walk (callback (site\<lparr>customTypes := [number_type]\<rparr>) False None (Parsed ''page1''))
     (SObj CObject [(''count'', SObj (CClass ''NumberType'') [(''selector'', SStr ''h1'')])]) None =
     Inr (JObj [(''count'', JNum 42)])"
  using walk_recurses_into_plain_objects_only [where
      v = "SObj (CClass ''NumberType'') [(''selector'', SStr ''h1'')]"
      and fn = "callback (site\<lparr>customTypes := [number_type]\<rparr>) False None (Parsed ''page1'')"
      and key = "Some ''count''" and c = CObject
      and ps = "[(''selector'', SStr ''h1'')]" and n = "''NumberType''"
      and E = "site\<lparr>customTypes := [number_type]\<rparr>" and typeConfig = number_type
      and strictMode = False and scope = None and d = "Parsed ''page1''"]
    walk_recurses_into_plain_objects_only [where
      v = "SObj CObject [(''count'', SObj (CClass ''NumberType'') [(''selector'', SStr ''h1'')])]"
      and fn = "callback (site\<lparr>customTypes := [number_type]\<rparr>) False None (Parsed ''page1'')"
      and key = None and c = CObject
      and ps = "[(''count'', SObj (CClass ''NumberType'') [(''selector'', SStr ''h1'')])]"]
  by (simp add: custom_for_def number_type_def site_def walk_leaf)

section \<open>The keys of a walked object\<close>

lemma map_of_set_prop: "map_of (set_prop res k v) = (map_of res)(k \<mapsto> v)"
  by (induction res k v rule: set_prop.induct) auto

lemma walk_keys_lookup:
  assumes "walk_keys fn ps acc = Inr res" and "distinct (map fst ps)"
  shows "map_of res k =
           (case map_of ps k of
              None \<Rightarrow> map_of acc k
            | Some v \<Rightarrow>
                (case walk fn v (Some k) of
                   Inl err \<Rightarrow> None
                 | Inr val \<Rightarrow> if val \<noteq> JUndefined \<and> val \<noteq> JStr [] then Some val else map_of acc k))"
  using assms
proof (induction ps arbitrary: acc)
  case Nil
  then show ?case by simp
next
  case (Cons kv rest)
  obtain k' v' where kv: "kv = (k', v')" by (cases kv)
  from Cons.prems(1) kv obtain val where
    val: "walk fn v' (Some k') = Inr val" and
    rest: "walk_keys fn rest (if val \<noteq> JUndefined \<and> val \<noteq> JStr [] then set_prop acc k' val else acc) = Inr res"
    by (auto split: sum.splits)
  from Cons.prems(2) kv have d: "distinct (map fst rest)" and fresh: "k' \<notin> fst ` set rest" by auto
  note ih = Cons.IH[OF rest d]
  show ?case
  proof (cases "k = k'")
    case True
    then have "map_of rest k = None" using fresh by (simp add: map_of_eq_None_iff)
    then show ?thesis using ih True kv val by (simp add: map_of_set_prop)
  next
    case False
    then show ?thesis using ih kv by (auto simp: map_of_set_prop split: option.splits sum.splits)
  qed
qed

text \<open>
  The order in which the children of an object are run bears on the order of the keys in
  the result and on the error reported, not on the success of the walk or on the value
  under each key: a walk of the same properties in another order succeeds as well and
  stores the same value under every key.
\<close>

lemma walk_keys_children:
  "walk_keys fn ps acc = Inr res \<Longrightarrow> (k, v) \<in> set ps \<Longrightarrow> \<exists>val. walk fn v (Some k) = Inr val"
proof (induction ps arbitrary: acc)
  case Nil
  then show ?case by simp
next
  case (Cons kv rest)
  obtain k' v' where kv: "kv = (k', v')" by (cases kv)
  from Cons.prems(1) kv obtain val where
    val: "walk fn v' (Some k') = Inr val" and
    rest: "walk_keys fn rest (if val \<noteq> JUndefined \<and> val \<noteq> JStr [] then set_prop acc k' val else acc) = Inr res"
    by (auto split: sum.splits)
  show ?case
  proof (cases "(k, v) = (k', v')")
    case True
    with val show ?thesis by auto
  next
    case False
    with Cons.prems(2) kv have "(k, v) \<in> set rest" by auto
    with Cons.IH[OF rest] show ?thesis by blast
  qed
qed

lemma walk_keys_succeeds:
  "(\<And>k v. (k, v) \<in> set ps \<Longrightarrow> \<exists>val. walk fn v (Some k) = Inr val) \<Longrightarrow>
   \<exists>res. walk_keys fn ps acc = Inr res"
proof (induction ps arbitrary: acc)
  case Nil
  then show ?case by simp
next
  case (Cons kv rest)
  obtain k' v' where kv: "kv = (k', v')" by (cases kv)
  from Cons.prems[of k' v'] kv obtain val where val: "walk fn v' (Some k') = Inr val" by auto
  have "\<exists>res. walk_keys fn rest acc' = Inr res" for acc'
    using Cons.IH Cons.prems by simp
  then show ?case using kv val by simp
qed

lemma walk_keys_any_order:
  assumes "walk_keys fn ps [] = Inr res" and "distinct (map fst ps)"
    and "set ps' = set ps" and "distinct (map fst ps')"
  shows "\<exists>res'. walk_keys fn ps' [] = Inr res' \<and> map_of res' = map_of res"
proof -
  have "\<exists>val. walk fn v (Some k) = Inr val" if "(k, v) \<in> set ps'" for k v
    using that assms(1,3) walk_keys_children by blast
  then obtain res' where res': "walk_keys fn ps' [] = Inr res'"
    using walk_keys_succeeds[of ps' fn "[]"] by blast
  have same: "map_of ps' = map_of ps"
    using assms(2,3,4) by (simp add: map_of_inject_set)
  have "map_of res' k = map_of res k" for k
    using walk_keys_lookup[OF res' assms(4), of k] walk_keys_lookup[OF assms(1,2), of k] same
    by simp
  then show ?thesis using res' by blast
qed

text \<open>
  C2. An object selector walked in permissive mode (\<open>strictMode\<close> false) with result
  \<open>result\<close>: the result is an object, and for each key \<open>k\<close> of the selector with
  sub-selector \<open>v\<close>: if \<open>v\<close> is null or undefined the result has the key with the value
  null; if \<open>v\<close> is of unsupported type the result does not have the key; if the walk of
  \<open>v\<close> gives the empty string the result does not have the key.
\<close>

theorem mapping_null_kept_unsupported_omitted:
  assumes "walkHTML E False scope (SObj c ps) d = Inr (result, d')"
    and "isPlainObject (SObj c ps)" and "distinct (map fst ps)" and "(k, v) \<in> set ps"
  shows "\<exists>res. result = JObj res \<and>
           (v = SNull \<or> v = SUndefined \<longrightarrow> map_of res k = Some JNull) \<and>
           (unsupported E v \<longrightarrow> map_of res k = None) \<and>
           (walk (callback E False scope d) v (Some k) = Inr (JStr []) \<longrightarrow> map_of res k = None)"
proof -
  from assms(1,2) obtain res where
    res: "walk_keys (callback E False scope d) ps [] = Inr res" and result: "result = JObj res"
    by (auto simp: walkHTML_callback walk_plain split: sum.splits)
  from assms(3,4) have at: "map_of ps k = Some v" by simp
  have look: "map_of res k =
      (case walk (callback E False scope d) v (Some k) of
         Inl err \<Rightarrow> None
       | Inr val \<Rightarrow> if val \<noteq> JUndefined \<and> val \<noteq> JStr [] then Some val else None)"
    using walk_keys_lookup[OF res assms(3), of k] at by (simp split: sum.splits)
  have null: "map_of res k = Some JNull" if "v = SNull \<or> v = SUndefined"
    using that look by (auto simp: walk_leaf callback_def)
  have unsup: "map_of res k = None" if "unsupported E v"
  proof -
    from that have "\<not> isPlainObject v" by (simp add: unsupported_def)
    then have "walk (callback E False scope d) v (Some k) = Inr JUndefined"
      using that by (simp add: walk_leaf callback_def leaf_unsupported)
    then show ?thesis using look by simp
  qed
  have blank: "map_of res k = None" if "walk (callback E False scope d) v (Some k) = Inr (JStr [])"
    using that look by simp
  show ?thesis using result null unsup blank by blast
qed


theorem mapping_null_kept_unsupported_omitted_witness:
  "walkHTML site False None
     (SObj CObject [(''title'', SStr ''h1''), (''n'', SNull), (''u'', SNum 3),
                    (''b'', SStr ''.blank''), (''m'', SUndefined)]) (Parsed ''page1'') =
     Inr (JObj [(''title'', JStr ''page1''), (''n'', JNull), (''m'', JNull)], Parsed ''page1'') \<and>
   isPlainObject (SObj CObject [(''title'', SStr ''h1''), (''n'', SNull), (''u'', SNum 3),
                    (''b'', SStr ''.blank''), (''m'', SUndefined)]) \<and>
   distinct (map fst [(''title'', SStr ''h1''), (''n'', SNull), (''u'', SNum 3),
                    (''b'', SStr ''.blank''), (''m'', SUndefined)]) \<and>
   (''n'', SNull) \<in> set [(''title'', SStr ''h1''), (''n'', SNull), (''u'', SNum 3),
                    (''b'', SStr ''.blank''), (''m'', SUndefined)] \<and>
   (''u'', SNum 3) \<in> set [(''title'', SStr ''h1''), (''n'', SNull), (''u'', SNum 3),
                    (''b'', SStr ''.blank''), (''m'', SUndefined)] \<and>
   (''b'', SStr ''.blank'') \<in> set [(''title'', SStr ''h1''), (''n'', SNull), (''u'', SNum 3),
                    (''b'', SStr ''.blank''), (''m'', SUndefined)] \<and>
   unsupported site (SNum 3) \<and>
   walk (callback site False None (Parsed ''page1'')) (SStr ''.blank'') (Some ''b'') = Inr (JStr []) \<and>
   map_of [(''title'', JStr ''page1''), (''n'', JNull), (''m'', JNull)] ''n'' = Some JNull \<and>
   map_of [(''title'', JStr ''page1''), (''n'', JNull), (''m'', JNull)] ''u'' = None \<and>
   map_of [(''title'', JStr ''page1''), (''n'', JNull), (''m'', JNull)] ''b'' = None"
proof -
  have run: "walkHTML site False None
     (SObj CObject [(''title'', SStr ''h1''), (''n'', SNull), (''u'', SNum 3),
                    (''b'', SStr ''.blank''), (''m'', SUndefined)]) (Parsed ''page1'') =
     Inr (JObj [(''title'', JStr ''page1''), (''n'', JNull), (''m'', JNull)], Parsed ''page1'')"
    by (simp add: site_defs run_defs leaf_def custom_for_def)
  have u: "unsupported site (SNum 3)"
    by (simp add: unsupported_def custom_for_def site_def)
  have b: "walk (callback site False None (Parsed ''page1'')) (SStr ''.blank'') (Some ''b'') = Inr (JStr [])"
    by (simp add: walk_leaf callback_def site_defs)
  note w = mapping_null_kept_unsupported_omitted [where E = site and scope = None and c = CObject
      and ps = "[(''title'', SStr ''h1''), (''n'', SNull), (''u'', SNum 3),
                 (''b'', SStr ''.blank''), (''m'', SUndefined)]"
      and d = "Parsed ''page1''" and d' = "Parsed ''page1''"
      and result = "JObj [(''title'', JStr ''page1''), (''n'', JNull), (''m'', JNull)]"]
  show ?thesis
    using run u b w [where k = "''n''" and v = SNull] w [where k = "''u''" and v = "SNum 3"]
      w [where k = "''b''" and v = "SStr ''.blank''"]
    by simp
qed

section \<open>Validation and the start of a node\<close>

lemma walkHTML_invalid:
  "assertValidType E selector = Some err \<Longrightarrow> walkHTML E True scope selector d = Inl err"
  by (simp add: walkHTML_callback)

lemma cycle_error: "cycle E wh (Suc fuel) st (Inl err) = Some (st, [Report (Inl err)])"
  by (simp add: next_cb_def)

text \<open>
  C8 (as stated). In strict mode the validation of a malformed schema would come before
  any network fetch. It does not: the validation is the first step of \<open>walkHTML\<close>, which
  \<open>node\<close> calls on the loaded document. With a URL as source and the selector
  \<open>{invalid: 123}\<close>, the page is requested first and the configuration error is reported
  after it; when the fetch fails, the fetch error is reported and the schema is never
  validated.
\<close>

theorem validation_before_fetch_counterexample:
  "node site True None (SObj CObject [(''invalid'', SNum 123)]) INIT_STATE (Suc 0)
     (SourceStr ''http://site/1'') =
     Some (INIT_STATE, [Request (JStr ''http://site/1''),
                        Report (Inl (number_error ''selector.invalid''))]) \<and>
   node site True None (SObj CObject [(''invalid'', SNum 123)]) INIT_STATE (Suc 0)
     (SourceStr ''http://site/9'') =
     Some (INIT_STATE, [Request (JStr ''http://site/9''), Report (Inl (FetchError ''not found''))])"
  by (simp add: site_defs run_defs)

text \<open>
  C8 (amended). In strict mode, with a malformed schema (\<open>assertValidType\<close> throws \<open>err\<close>),
  the validation is the first step of every walk: whatever the document, \<open>walkHTML\<close>
  reports \<open>err\<close> and resolves no leaf. A node whose source is not a URL and whose scope is
  not of the form \<open>selector@attribute\<close> reports \<open>err\<close> without any request. A node whose
  source is a URL requests it first and reports \<open>err\<close> only when the fetch succeeds, the
  fetch error otherwise.
\<close>

theorem strict_validation_at_walk:
  assumes "assertValidType E selector = Some err"
  shows "walkHTML E True scope selector d = Inl err \<and>
         (\<not> source_isUrl E source \<and> \<not> composed scope \<longrightarrow>
            node E True scope selector st (Suc fuel) source = Some (st, [Report (Inl err)])) \<and>
         (source_isUrl E source \<longrightarrow>
            node E True scope selector st (Suc fuel) source =
              Some (st, [Request (source_url source),
                         Report (Inl (case crawl E (source_url source) of
                                        Inl fetch_err \<Rightarrow> fetch_err
                                      | Inr html \<Rightarrow> err))]))"
proof (intro conjI impI)
  show "walkHTML E True scope selector d = Inl err"
    using assms by (rule walkHTML_invalid)
next
  assume "\<not> source_isUrl E source \<and> \<not> composed scope"
  then show "node E True scope selector st (Suc fuel) source = Some (st, [Report (Inl err)])"
    using assms by (simp add: node_def node_start_def walkHTML_invalid next_cb_def)
next
  assume "source_isUrl E source"
  then show "node E True scope selector st (Suc fuel) source =
              Some (st, [Request (source_url source),
                         Report (Inl (case crawl E (source_url source) of
                                        Inl fetch_err \<Rightarrow> fetch_err
                                      | Inr html \<Rightarrow> err))])"
    using assms
    by (cases "crawl E (source_url source)")
       (simp_all add: node_def node_start_def request_def walkHTML_invalid next_cb_def)
qed

theorem strict_validation_at_walk_witness:
  "assertValidType site (SObj CObject [(''invalid'', SNum 123)]) =
     Some (number_error ''selector.invalid'') \<and>
   walkHTML site True None (SObj CObject [(''invalid'', SNum 123)]) (Parsed ''page1'') =
     Inl (number_error ''selector.invalid'') \<and>
   \<not> source_isUrl site (SourceStr ''page1'') \<and> \<not> composed None \<and>
   node site True None (SObj CObject [(''invalid'', SNum 123)]) INIT_STATE (Suc 0) (SourceStr ''page1'') =
     Some (INIT_STATE, [Report (Inl (number_error ''selector.invalid''))]) \<and>
   source_isUrl site (SourceStr ''http://site/1'') \<and>
   node site True None (SObj CObject [(''invalid'', SNum 123)]) INIT_STATE (Suc 0)
     (SourceStr ''http://site/1'') =
     Some (INIT_STATE, [Request (JStr ''http://site/1''),
                        Report (Inl (number_error ''selector.invalid''))])"
  using strict_validation_at_walk [where E = site and selector = "SObj CObject [(''invalid'', SNum 123)]"
      and err = "number_error ''selector.invalid''" and scope = None
      and d = "Parsed ''page1''" and source = "SourceStr ''page1''" and st = INIT_STATE and fuel = 0]
    strict_validation_at_walk [where E = site and selector = "SObj CObject [(''invalid'', SNum 123)]"
      and err = "number_error ''selector.invalid''" and scope = None
      and d = "Parsed ''page1''" and source = "SourceStr ''http://site/1''" and st = INIT_STATE and fuel = 0]
  by (simp add: site_defs composed_def)







end
